theory Spec2Isabelle
  imports Main "HOL-Library.Signed_Division"
begin

section \<open>The timing wheel of timewheel.go\<close>

text \<open>
  The wheel is owned by one goroutine (\<^verbatim>\<open>start\<close>), which takes one event at a time from
  the ticker and the three command channels. The model is that goroutine's view: every
  handler is a function from the wheel to the wheel it leaves behind.

  \<^item> A Go pointer is a value of \<open>'a pointer\<close>: \<open>nil\<close> or \<open>Ref\<close> of what it points to.
  \<^item> A runtime panic is a value of \<open>panic\<close>; a handler that can panic returns
    \<open>panic + wheel\<close>, with \<open>Inl\<close> the panic.
  \<^item> \<^verbatim>\<open>time.Duration\<close> is a count of nanoseconds, \<^verbatim>\<open>int\<close> is the 64-bit integer; both are
    \<open>int\<close> here. The only arithmetic is on whole seconds (below \<open>2 ^ 34\<close>) and on slot
    indices (below the length of an allocated slice), so no sum leaves the 64-bit range.
  \<^item> Keys are values of a type \<open>'k\<close> with HOL equality: the comparable, hashable keys of
    Go. Callbacks and their payload maps are values of the opaque types \<open>'j\<close> and \<open>'d\<close>.
  \<^item> \<^verbatim>\<open>go task.job(task.taskData)\<close> appends the task, as it is at that moment, to the
    log \<open>tw_dispatched\<close>; the log is the only field that is not in the Go struct.
  \<^item> The channels, the ticker and \<^verbatim>\<open>fmt.Println\<close> are not part of the wheel's state.
\<close>

datatype 'a pointer = nil | Ref 'a

datatype panic = DivideByZero | IndexOutOfRange | NilDereference

type_synonym Duration = int

record ('k, 'j, 'd) task =
  task_interval :: Duration
  task_times :: int
  task_circle :: int
  task_key :: 'k
  task_job :: 'j
  task_taskData :: 'd

record ('k, 'd) uptask =
  update_key :: 'k
  update_interval :: Duration
  update_taskData :: 'd

record ('k, 'j, 'd) TimeWheel =
  tw_interval :: Duration
  tw_slots :: "('k, 'j, 'd) task list pointer list"
  tw_timer :: "'k \<Rightarrow> int option"
  tw_currentPos :: int
  tw_slotNum :: int
  tw_dispatched :: "('k, 'j, 'd) task list"

subsection \<open>container/list, by position\<close>

text \<open>
  A \<^verbatim>\<open>*list.List\<close> is the sequence of its values, and an \<^verbatim>\<open>*Element\<close> of it is the
  position of that element in the sequence (\<open>nil\<close> for no element). \<^verbatim>\<open>Remove\<close> takes the
  element out, so every later element moves one position down: \<open>moved\<close> renames a pointer
  that was read before the removal.
\<close>

definition Front :: "'a list \<Rightarrow> nat pointer" where
  "Front l = (if length l = 0 then nil else Ref 0)"

definition Next :: "'a list \<Rightarrow> nat \<Rightarrow> nat pointer" where
  "Next l e = (if Suc e < length l then Ref (Suc e) else nil)"

definition Remove :: "'a list \<Rightarrow> nat \<Rightarrow> 'a list" where
  "Remove l e = take e l @ drop (Suc e) l"

definition PushBack :: "'a list \<Rightarrow> 'a \<Rightarrow> 'a list" where
  "PushBack l v = l @ [v]"

definition moved :: "nat \<Rightarrow> nat pointer \<Rightarrow> nat pointer" where
  "moved e p = (case p of nil \<Rightarrow> nil | Ref j \<Rightarrow> Ref (if e < j then j - 1 else j))"

subsection \<open>New and init\<close>

text \<open>
  \<^verbatim>\<open>make\<close> gives \<open>slotNum\<close> nil list pointers, and the loop of \<^verbatim>\<open>init\<close> stores a fresh empty
  list at each index below \<open>slotNum\<close>. \<open>New\<close> returns a pointer, nil for arguments it
  refuses. (How much memory \<^verbatim>\<open>make\<close> can get is not modelled.)
\<close>

function init_loop :: "('k, 'j, 'd) TimeWheel \<Rightarrow> int \<Rightarrow> panic + ('k, 'j, 'd) TimeWheel" where
  "init_loop tw i =
     (if i < tw_slotNum tw then
        (if i < 0 \<or> int (length (tw_slots tw)) \<le> i then Inl IndexOutOfRange
         else init_loop (tw\<lparr>tw_slots := (tw_slots tw)[nat i := Ref []]\<rparr>) (i + 1))
      else Inr tw)"
  by pat_completeness auto
termination
  by (relation "measure (\<lambda>(tw, i). nat (tw_slotNum tw - i))") auto

declare init_loop.simps [simp del]

definition init :: "('k, 'j, 'd) TimeWheel \<Rightarrow> panic + ('k, 'j, 'd) TimeWheel" where
  "init tw = init_loop tw 0"

definition New :: "Duration \<Rightarrow> int \<Rightarrow> panic + ('k, 'j, 'd) TimeWheel pointer" where
  "New interval slotNum =
     (if interval \<le> 0 \<or> slotNum \<le> 0 then Inr nil
      else
        (case init \<lparr>tw_interval = interval,
                    tw_slots = replicate (nat slotNum) nil,
                    tw_timer = (\<lambda>k. None),
                    tw_currentPos = 0,
                    tw_slotNum = slotNum,
                    tw_dispatched = []\<rparr> of
           Inl e \<Rightarrow> Inl e
         | Inr tw \<Rightarrow> Inr (Ref tw)))"

subsection \<open>Placement\<close>

text \<open>
  \<^verbatim>\<open>int(d.Seconds())\<close>: the whole seconds of a duration, rounded towards zero. \<^verbatim>\<open>Seconds\<close>
  goes through a float64; for every duration shorter than \<open>2 ^ 24\<close> seconds (some 194
  days) the conversion back to \<^verbatim>\<open>int\<close> gives exactly this quotient, and the model takes
  the quotient for all durations. Go's \<^verbatim>\<open>/\<close> and \<^verbatim>\<open>%\<close> on integers round towards zero
  (\<open>sdiv\<close>, \<open>smod\<close>) and panic on a zero divisor; the quotient by the interval is
  taken first.
\<close>

definition Second :: Duration where
  "Second = 1000000000"

definition int_Seconds :: "Duration \<Rightarrow> int" where
  "int_Seconds d = d sdiv Second"

definition getPositionAndCircle ::
  "('k, 'j, 'd) TimeWheel \<Rightarrow> Duration \<Rightarrow> panic + (int \<times> int)" where
  "getPositionAndCircle tw d =
     (let delaySeconds = int_Seconds d;
          intervalSeconds = int_Seconds (tw_interval tw)
      in if intervalSeconds = 0 then Inl DivideByZero
         else if tw_slotNum tw = 0 then Inl DivideByZero
         else
           (let circle = delaySeconds sdiv intervalSeconds sdiv tw_slotNum tw;
                pos = (tw_currentPos tw + delaySeconds sdiv intervalSeconds) smod tw_slotNum tw
            in Inr (pos, circle)))"

subsection \<open>The command handlers\<close>

definition addTask ::
  "('k, 'j, 'd) TimeWheel \<Rightarrow> ('k, 'j, 'd) task \<Rightarrow> panic + ('k, 'j, 'd) TimeWheel" where
  "addTask tw task =
     (case getPositionAndCircle tw (task_interval task) of
        Inl e \<Rightarrow> Inl e
      | Inr (pos, circle) \<Rightarrow>
          (let task = task\<lparr>task_circle := circle\<rparr>
           in if pos < 0 \<or> int (length (tw_slots tw)) \<le> pos then Inl IndexOutOfRange
              else
                (case tw_slots tw ! nat pos of
                   nil \<Rightarrow> Inl NilDereference
                 | Ref l \<Rightarrow>
                     Inr (tw\<lparr>tw_slots := (tw_slots tw)[nat pos := Ref (PushBack l task)],
                             tw_timer := (tw_timer tw)(task_key task := Some pos)\<rparr>))))"

text \<open>
  \<^verbatim>\<open>updateTask\<close> walks a copy of the list header; the elements and the tasks they point to
  are the slot's own, so the walk sees every element and writes through to the slot.
\<close>

function updateTask_loop ::
  "('k, 'd) uptask \<Rightarrow> ('k, 'j, 'd) task list \<Rightarrow> nat pointer \<Rightarrow> ('k, 'j, 'd) task list" where
  "updateTask_loop update l nil = l"
| "updateTask_loop update l (Ref e) =
     (let task = l ! e;
          l' = (if task_key task = update_key update
                then l[e := task\<lparr>task_interval := update_interval update,
                                 task_taskData := update_taskData update\<rparr>]
                else l)
      in updateTask_loop update l' (Next l' e))"
  by pat_completeness auto
termination
  by (relation "measure (\<lambda>(update, l, e). case e of nil \<Rightarrow> 0 | Ref i \<Rightarrow> Suc (length l - i))")
    (auto simp: Next_def split: if_splits)

declare updateTask_loop.simps [simp del]

definition updateTask ::
  "('k, 'j, 'd) TimeWheel \<Rightarrow> ('k, 'd) uptask \<Rightarrow> panic + ('k, 'j, 'd) TimeWheel" where
  "updateTask tw update =
     (let key = update_key update
      in case tw_timer tw key of
           None \<Rightarrow> Inr tw
         | Some position \<Rightarrow>
             (if position < 0 \<or> int (length (tw_slots tw)) \<le> position then Inl IndexOutOfRange
              else
                (case tw_slots tw ! nat position of
                   nil \<Rightarrow> Inl NilDereference
                 | Ref l \<Rightarrow>
                     Inr (tw\<lparr>tw_slots :=
                       (tw_slots tw)[nat position := Ref (updateTask_loop update l (Front l))]\<rparr>))))"

text \<open>
  In \<^verbatim>\<open>removeTask\<close> the element is removed before \<^verbatim>\<open>e.Next()\<close> is read. A removed element
  belongs to no list, and \<^verbatim>\<open>Next\<close> of such an element is \<open>nil\<close>: the walk ends at the first
  task it removes.
\<close>

function removeTask_loop ::
  "'k \<Rightarrow> ('k \<Rightarrow> int option) \<times> ('k, 'j, 'd) task list \<Rightarrow> nat pointer \<Rightarrow>
   ('k \<Rightarrow> int option) \<times> ('k, 'j, 'd) task list" where
  "removeTask_loop key (timer, l) nil = (timer, l)"
| "removeTask_loop key (timer, l) (Ref e) =
     (let task = l ! e
      in if task_key task = key
         then removeTask_loop key (timer(task_key task := None), Remove l e) nil
         else removeTask_loop key (timer, l) (Next l e))"
  by pat_completeness auto
termination
  by (relation "measure (\<lambda>(key, tl, e). case e of nil \<Rightarrow> 0 | Ref i \<Rightarrow> Suc (length (snd tl) - i))")
    (auto simp: Next_def split: if_splits)

declare removeTask_loop.simps [simp del]

definition removeTask ::
  "('k, 'j, 'd) TimeWheel \<Rightarrow> 'k \<Rightarrow> panic + ('k, 'j, 'd) TimeWheel" where
  "removeTask tw key =
     (case tw_timer tw key of
        None \<Rightarrow> Inr tw
      | Some position \<Rightarrow>
          (if position < 0 \<or> int (length (tw_slots tw)) \<le> position then Inl IndexOutOfRange
           else
             (case tw_slots tw ! nat position of
                nil \<Rightarrow> Inl NilDereference
              | Ref l \<Rightarrow>
                  (case removeTask_loop key (tw_timer tw, l) (Front l) of
                     (timer, l') \<Rightarrow>
                       Inr (tw\<lparr>tw_slots := (tw_slots tw)[nat position := Ref l'],
                               tw_timer := timer\<rparr>)))))"

subsection \<open>The tick\<close>

text \<open>
  One pass of the loop of \<^verbatim>\<open>scanAddRunTask\<close>, at the element \<open>item\<close> of the list \<open>l\<close>. The
  list is named by the index \<open>l\<close> of its slot, since \<^verbatim>\<open>addTask\<close> may push onto the very
  list that is being walked. The result is the wheel and the next \<open>item\<close>. (The list was
  found not to be \<open>nil\<close> before the loop; that case only closes the definition.)
\<close>

definition scan_step ::
  "('k, 'j, 'd) TimeWheel \<Rightarrow> nat \<Rightarrow> nat \<Rightarrow> panic + (('k, 'j, 'd) TimeWheel \<times> nat pointer)" where
  "scan_step tw l item =
     (case tw_slots tw ! l of
        nil \<Rightarrow> Inr (tw, nil)
      | Ref xs \<Rightarrow>
          (let task = xs ! item
           in if task_times task = 0 then
                (let next = Next xs item;
                     tw = tw\<lparr>tw_slots := (tw_slots tw)[l := Ref (Remove xs item)]\<rparr>;
                     tw = tw\<lparr>tw_timer := (tw_timer tw)(task_key task := None)\<rparr>
                 in Inr (tw, moved item next))
              else if task_circle task > 0 then
                (let task = task\<lparr>task_circle := task_circle task - 1\<rparr>
                 in Inr (tw\<lparr>tw_slots := (tw_slots tw)[l := Ref (xs[item := task])]\<rparr>,
                         Next xs item))
              else
                (let tw = tw\<lparr>tw_dispatched := tw_dispatched tw @ [task]\<rparr>;
                     next = Next xs item;
                     tw = tw\<lparr>tw_slots := (tw_slots tw)[l := Ref (Remove xs item)]\<rparr>;
                     tw = tw\<lparr>tw_timer := (tw_timer tw)(task_key task := None)\<rparr>;
                     item = moved item next
                 in if task_times task > 0 \<or> task_times task = - 1 then
                      (let task = (if task_times task > 0
                                   then task\<lparr>task_times := task_times task - 1\<rparr> else task)
                       in case addTask tw task of
                            Inl e \<Rightarrow> Inl e
                          | Inr tw \<Rightarrow> Inr (tw, item))
                    else Inr (tw, item))))"

text \<open>
  The loop itself may run for ever (a task that is put back into the list being walked is
  met again), so it is a partial function: \<open>None\<close> is a walk that never ends.
\<close>

partial_function (option) scan_loop ::
  "('k, 'j, 'd) TimeWheel \<Rightarrow> nat \<Rightarrow> nat pointer \<Rightarrow> (panic + ('k, 'j, 'd) TimeWheel) option" where
  "scan_loop tw l item =
     (case item of
        nil \<Rightarrow> Some (Inr tw)
      | Ref e \<Rightarrow>
          (case scan_step tw l e of
             Inl err \<Rightarrow> Some (Inl err)
           | Inr (tw', item') \<Rightarrow> scan_loop tw' l item'))"

declare scan_loop.simps [code]

definition scanAddRunTask ::
  "('k, 'j, 'd) TimeWheel \<Rightarrow> nat \<Rightarrow> (panic + ('k, 'j, 'd) TimeWheel) option" where
  "scanAddRunTask tw l =
     (case tw_slots tw ! l of
        nil \<Rightarrow> Some (Inr tw)
      | Ref xs \<Rightarrow> scan_loop tw l (Front xs))"

definition tickHandler ::
  "('k, 'j, 'd) TimeWheel \<Rightarrow> (panic + ('k, 'j, 'd) TimeWheel) option" where
  "tickHandler tw =
     (if tw_currentPos tw < 0 \<or> int (length (tw_slots tw)) \<le> tw_currentPos tw
      then Some (Inl IndexOutOfRange)
      else
        (case scanAddRunTask tw (nat (tw_currentPos tw)) of
           None \<Rightarrow> None
         | Some (Inl e) \<Rightarrow> Some (Inl e)
         | Some (Inr tw) \<Rightarrow>
             Some (Inr (if tw_currentPos tw = tw_slotNum tw - 1
                        then tw\<lparr>tw_currentPos := 0\<rparr>
                        else tw\<lparr>tw_currentPos := tw_currentPos tw + 1\<rparr>))))"

subsection \<open>The coordinator and the calls that feed it\<close>

text \<open>
  What \<^verbatim>\<open>start\<close> receives in one turn of its \<^verbatim>\<open>select\<close>. \<open>start\<close> runs the handlers over
  a finite sequence of such events, up to the first panic or \<open>StopChannel\<close>.
\<close>

datatype ('k, 'j, 'd) event =
  TickerC
| AddTaskChannel "('k, 'j, 'd) task"
| UpdateTaskChannel "('k, 'd) uptask"
| RemoveTaskChannel 'k
| StopChannel

fun handle ::
  "('k, 'j, 'd) TimeWheel \<Rightarrow> ('k, 'j, 'd) event \<Rightarrow> (panic + ('k, 'j, 'd) TimeWheel) option" where
  "handle tw TickerC = tickHandler tw"
| "handle tw (AddTaskChannel task) = Some (addTask tw task)"
| "handle tw (UpdateTaskChannel update) = Some (updateTask tw update)"
| "handle tw (RemoveTaskChannel key) = Some (removeTask tw key)"
| "handle tw StopChannel = Some (Inr tw)"

fun start ::
  "('k, 'j, 'd) TimeWheel \<Rightarrow> ('k, 'j, 'd) event list \<Rightarrow>
   (panic + ('k, 'j, 'd) TimeWheel) option" where
  "start tw [] = Some (Inr tw)"
| "start tw (StopChannel # evs) = Some (Inr tw)"
| "start tw (ev # evs) =
     (case handle tw ev of
        None \<Rightarrow> None
      | Some (Inl e) \<Rightarrow> Some (Inl e)
      | Some (Inr tw') \<Rightarrow> start tw' evs)"

text \<open>
  The exported calls check their arguments and then send on a channel; the result here is
  what is sent, \<open>None\<close> when the call returns without sending. An \<^verbatim>\<open>interface{}\<close> key and a
  \<^verbatim>\<open>Job\<close> can be \<open>nil\<close>, so at this level both are pointers.
\<close>

definition AddTask ::
  "Duration \<Rightarrow> int \<Rightarrow> 'k pointer \<Rightarrow> 'd \<Rightarrow> 'j pointer \<Rightarrow>
   ('k pointer, 'j pointer, 'd) event option" where
  "AddTask interval times' key data job =
     (if interval \<le> 0 \<or> key = nil \<or> job = nil then None
      else Some (AddTaskChannel \<lparr>task_interval = interval, task_times = times', task_circle = 0,
                                 task_key = key, task_job = job, task_taskData = data\<rparr>))"

definition UpdateTask ::
  "'k pointer \<Rightarrow> Duration \<Rightarrow> 'd \<Rightarrow> ('k pointer, 'j pointer, 'd) event option" where
  "UpdateTask key interval data =
     (if key = nil then None
      else Some (UpdateTaskChannel \<lparr>update_key = key, update_interval = interval,
                                    update_taskData = data\<rparr>))"

definition RemoveTask :: "'k pointer \<Rightarrow> ('k pointer, 'j pointer, 'd) event option" where
  "RemoveTask key = (if key = nil then None else Some (RemoveTaskChannel key))"

section \<open>What the properties speak of\<close>

text \<open>The tasks of a slot, and the shape every wheel built by \<open>New\<close> keeps.\<close>

definition tasks_in :: "'a list pointer \<Rightarrow> 'a list" where
  "tasks_in s = (case s of nil \<Rightarrow> [] | Ref l \<Rightarrow> l)"

definition slot_tasks :: "('k, 'j, 'd) TimeWheel \<Rightarrow> nat \<Rightarrow> ('k, 'j, 'd) task list" where
  "slot_tasks tw p = tasks_in (tw_slots tw ! p)"

definition well_formed :: "('k, 'j, 'd) TimeWheel \<Rightarrow> bool" where
  "well_formed tw \<longleftrightarrow>
     0 < tw_slotNum tw \<and> length (tw_slots tw) = nat (tw_slotNum tw) \<and>
     0 \<le> tw_currentPos tw \<and> tw_currentPos tw < tw_slotNum tw \<and>
     (\<forall>s \<in> set (tw_slots tw). s \<noteq> nil)"

text \<open>
  Registry and slots agree: every task in a slot has its key registered at that slot's
  index, and every registered key points at a slot of the wheel that holds exactly one
  task with that key.
\<close>

definition count_key :: "'k \<Rightarrow> ('k, 'j, 'd) task list \<Rightarrow> nat" where
  "count_key k xs = length (filter (\<lambda>t. task_key t = k) xs)"


text \<open>The same agreement as a count, slot by slot and key by key.\<close>

definition counts_ok ::
  "('k, 'j, 'd) task list pointer list \<Rightarrow> ('k \<Rightarrow> int option) \<Rightarrow> bool" where
  "counts_ok slots timer \<longleftrightarrow>
     (\<forall>k p. p < length slots \<longrightarrow>
        count_key k (tasks_in (slots ! p)) = (if timer k = Some (int p) then 1 else 0)) \<and>
     (\<forall>k p. timer k = Some p \<longrightarrow> 0 \<le> p \<and> nat p < length slots)"

definition wheel_inv :: "('k, 'j, 'd) TimeWheel \<Rightarrow> bool" where
  "wheel_inv tw \<longleftrightarrow> well_formed tw \<and> counts_ok (tw_slots tw) (tw_timer tw)"

text \<open>
  The states of a running wheel: what \<open>New\<close> returns, and what a handler leaves behind
  when it returns. An Add command carries a key that no armed task has at that moment,
  as the data model asks of the callers.
\<close>

fun key_unique :: "('k, 'j, 'd) TimeWheel \<Rightarrow> ('k, 'j, 'd) event \<Rightarrow> bool" where
  "key_unique tw (AddTaskChannel task) = (tw_timer tw (task_key task) = None)"
| "key_unique tw ev = True"

inductive reachable :: "('k, 'j, 'd) TimeWheel \<Rightarrow> bool" where
  reachable_New: "New interval slotNum = Inr (Ref tw) \<Longrightarrow> reachable tw"
| reachable_handle:
    "reachable tw \<Longrightarrow> key_unique tw ev \<Longrightarrow> handle tw ev = Some (Inr tw') \<Longrightarrow> reachable tw'"






text \<open>The tasks of one key in a list, and two wheels that differ only on other keys.\<close>

definition key_tasks :: "'k \<Rightarrow> ('k, 'j, 'd) task list \<Rightarrow> ('k, 'j, 'd) task list" where
  "key_tasks K xs = filter (\<lambda>t. task_key t = K) xs"





text \<open>The outcome of a run, when it has one.\<close>

definition returned :: "(panic + ('k, 'j, 'd) TimeWheel) option \<Rightarrow> bool" where
  "returned r = (case r of Some (Inr tw) \<Rightarrow> True | _ \<Rightarrow> False)"

definition state_of :: "(panic + ('k, 'j, 'd) TimeWheel) option \<Rightarrow> ('k, 'j, 'd) TimeWheel" where
  "state_of r = (case r of Some (Inr tw) \<Rightarrow> tw)"

text \<open>The wheel that \<open>New\<close> hands out for a positive interval and slot count.\<close>

definition empty_wheel :: "Duration \<Rightarrow> int \<Rightarrow> ('k, 'j, 'd) TimeWheel" where
  "empty_wheel interval slotNum =
     \<lparr>tw_interval = interval, tw_slots = replicate (nat slotNum) (Ref []),
      tw_timer = (\<lambda>k. None), tw_currentPos = 0, tw_slotNum = slotNum, tw_dispatched = []\<rparr>"


text \<open>
  The same three lines with both durations cut to whole seconds first, which is what the
  code divides.
\<close>

definition whole_second_placement :: "('k, 'j, 'd) TimeWheel \<Rightarrow> Duration \<Rightarrow> int \<times> int" where
  "whole_second_placement tw d =
     (let steps = (d div Second) div (tw_interval tw div Second);
          pos = (tw_currentPos tw + steps) mod tw_slotNum tw;
          circle = steps div tw_slotNum tw
      in (pos, circle))"

text \<open>
  A due task that is put back has one run less, unless it runs for ever. A loop pointer
  is in order when it is \<open>nil\<close> or a position of the list it walks.
\<close>

definition rearmed :: "('k, 'j, 'd) task \<Rightarrow> ('k, 'j, 'd) task" where
  "rearmed task = (if task_times task > 0 then task\<lparr>task_times := task_times task - 1\<rparr> else task)"

definition item_ok :: "('k, 'j, 'd) TimeWheel \<Rightarrow> nat \<Rightarrow> nat pointer \<Rightarrow> bool" where
  "item_ok tw l item = (case item of nil \<Rightarrow> True | Ref e \<Rightarrow> e < length (slot_tasks tw l))"

text \<open>What holds at the head of the loop of \<^verbatim>\<open>scanAddRunTask\<close>, on the list of slot \<open>l\<close>.\<close>

definition scan_inv ::
  "('k, 'j, 'd) TimeWheel \<Rightarrow> nat \<Rightarrow> ('k, 'j, 'd) TimeWheel \<Rightarrow> nat pointer \<Rightarrow> bool" where
  "scan_inv tw0 l tw item \<longleftrightarrow>
     wheel_inv tw \<and> l < length (tw_slots tw) \<and> item_ok tw l item \<and>
     tw_currentPos tw = tw_currentPos tw0 \<and> tw_slotNum tw = tw_slotNum tw0 \<and>
     tw_interval tw = tw_interval tw0"

text \<open>What one pass of the loop of \<^verbatim>\<open>updateTask\<close> does to the task it looks at.\<close>

definition overwrite :: "('k, 'd) uptask \<Rightarrow> ('k, 'j, 'd) task \<Rightarrow> ('k, 'j, 'd) task" where
  "overwrite update task =
     (if task_key task = update_key update
      then task\<lparr>task_interval := update_interval update, task_taskData := update_taskData update\<rparr>
      else task)"

text \<open>
  The four things one pass of the scan can do to the task \<open>t\<close> it looks at, in the
  words of the tick: take it out of its slot and off the registry; lower its circle;
  dispatch it, take it out, and, if it has runs left or runs for ever, put it back (with
  one run less when the runs are counted) where the placement in whole seconds says, from
  the cursor as it is. The last line is stated for wheels of at least one second and
  delays that are not negative, where that placement is what the code computes.
\<close>

definition taken_out ::
  "('k, 'j, 'd) TimeWheel \<Rightarrow> nat \<Rightarrow> nat \<Rightarrow> ('k, 'j, 'd) TimeWheel" where
  "taken_out tw l item =
     tw\<lparr>tw_slots := (tw_slots tw)[l := Ref (Remove (slot_tasks tw l) item)],
        tw_timer := (tw_timer tw)(task_key (slot_tasks tw l ! item) := None)\<rparr>"

definition dispatched ::
  "('k, 'j, 'd) TimeWheel \<Rightarrow> ('k, 'j, 'd) task \<Rightarrow> ('k, 'j, 'd) TimeWheel" where
  "dispatched tw task = tw\<lparr>tw_dispatched := tw_dispatched tw @ [task]\<rparr>"

definition put_at ::
  "('k, 'j, 'd) TimeWheel \<Rightarrow> ('k, 'j, 'd) task \<Rightarrow> int \<times> int \<Rightarrow> ('k, 'j, 'd) TimeWheel" where
  "put_at tw task pc =
     tw\<lparr>tw_slots := (tw_slots tw)[nat (fst pc) :=
           Ref (slot_tasks tw (nat (fst pc)) @ [task\<lparr>task_circle := snd pc\<rparr>])],
        tw_timer := (tw_timer tw)(task_key task := Some (fst pc))\<rparr>"


definition one_pass :: "('k, 'j, 'd) TimeWheel \<Rightarrow> nat \<Rightarrow> nat \<Rightarrow> bool" where
  "one_pass tw l item \<longleftrightarrow>
     (let xs = slot_tasks tw l; t = xs ! item; next = moved item (Next xs item)
      in (task_times t = 0 \<longrightarrow>
            scan_step tw l item = Inr (taken_out tw l item, next)) \<and>
         (task_times t \<noteq> 0 \<and> 0 < task_circle t \<longrightarrow>
            scan_step tw l item =
              Inr (tw\<lparr>tw_slots := (tw_slots tw)[l :=
                         Ref (xs[item := t\<lparr>task_circle := task_circle t - 1\<rparr>])]\<rparr>,
                   Next xs item)) \<and>
         (task_times t \<noteq> 0 \<and> \<not> 0 < task_circle t \<and>
          \<not> (0 < task_times t \<or> task_times t = - 1) \<longrightarrow>
            scan_step tw l item = Inr (taken_out (dispatched tw t) l item, next)) \<and>
         (task_times t \<noteq> 0 \<and> \<not> 0 < task_circle t \<and>
          (0 < task_times t \<or> task_times t = - 1) \<and>
          Second \<le> tw_interval tw \<and> 0 \<le> task_interval t \<longrightarrow>
            scan_step tw l item =
              Inr (put_at (taken_out (dispatched tw t) l item) (rearmed t)
                     (whole_second_placement tw (task_interval t)),
                   next)))"


definition rest :: "('k, 'j, 'd) TimeWheel \<Rightarrow> nat \<Rightarrow> nat pointer \<Rightarrow> ('k, 'j, 'd) task list" where
  "rest tw l item = (case item of nil \<Rightarrow> [] | Ref e \<Rightarrow> drop e (slot_tasks tw l))"

definition hot :: "('k, 'j, 'd) TimeWheel \<Rightarrow> ('k, 'j, 'd) task \<Rightarrow> bool" where
  "hot tw t \<longleftrightarrow>
     task_times t = - 1 \<and> \<not> 0 < task_circle t \<and> 0 \<le> task_interval t \<and>
     whole_second_placement tw (task_interval t) = (tw_currentPos tw, 0)"

definition spinning :: "('k, 'j, 'd) TimeWheel \<Rightarrow> nat \<Rightarrow> bool" where
  "spinning tw l \<longleftrightarrow>
     well_formed tw \<and> l = nat (tw_currentPos tw) \<and> Second \<le> tw_interval tw \<and>
     (\<exists>x y. slot_tasks tw l = [x, y] \<and> hot tw x \<and> hot tw y)"

subsection \<open>Sample wheels and tasks\<close>

definition sample_task :: "string \<Rightarrow> Duration \<Rightarrow> int \<Rightarrow> (string, string, string) task" where
  "sample_task k d n =
     \<lparr>task_interval = d, task_times = n, task_circle = 0, task_key = k,
      task_job = ''job'', task_taskData = ''data''\<rparr>"

definition sample_wheel :: "Duration \<Rightarrow> int \<Rightarrow> (string, string, string) TimeWheel" where
  "sample_wheel interval slotNum = empty_wheel interval slotNum"


definition armed_wheel ::
  "(string, string, string) task \<Rightarrow> (string, string, string) TimeWheel" where
  "armed_wheel task = state_of (handle (sample_wheel 1000000000 3) (AddTaskChannel task))"

section \<open>Arithmetic of the placement\<close>

lemma Second_pos: "0 < Second"
  by (simp add: Second_def)

lemma sdiv_nonneg: "0 \<le> a \<Longrightarrow> 0 \<le> b \<Longrightarrow> a sdiv b = a div (b::int)"
  by (cases "a = 0"; cases "b = 0") (simp_all add: signed_divide_int_def)

lemma smod_nonneg: "0 \<le> a \<Longrightarrow> 0 \<le> b \<Longrightarrow> a smod b = a mod (b::int)"
  by (cases "a = 0") (simp_all add: signed_modulo_int_def)

lemma int_Seconds_nonneg: "0 \<le> d \<Longrightarrow> int_Seconds d = d div Second"
  using Second_pos by (simp add: int_Seconds_def sdiv_nonneg)

lemma int_Seconds_zero_iff: "0 < d \<Longrightarrow> int_Seconds d = 0 \<longleftrightarrow> d < Second"
  using Second_pos by (auto simp: int_Seconds_nonneg zdiv_eq_0_iff)

lemma int_Seconds_pos: "Second \<le> d \<Longrightarrow> 0 < int_Seconds d"
  using Second_pos by (simp add: int_Seconds_nonneg pos_imp_zdiv_pos_iff)

lemma getPositionAndCircle_whole:
  assumes "Second \<le> tw_interval tw" "0 \<le> d" "0 < tw_slotNum tw" "0 \<le> tw_currentPos tw"
  shows "getPositionAndCircle tw d = Inr (whole_second_placement tw d)"
proof -
  have i: "0 < int_Seconds (tw_interval tw)" using assms(1) by (rule int_Seconds_pos)
  have i': "int_Seconds (tw_interval tw) = tw_interval tw div Second"
    using assms(1) Second_pos by (simp add: int_Seconds_nonneg)
  have d: "int_Seconds d = d div Second" "0 \<le> d div Second"
    using assms(2) Second_pos by (simp_all add: int_Seconds_nonneg pos_imp_zdiv_nonneg_iff)
  have s: "0 \<le> (d div Second) div (tw_interval tw div Second)"
    using d i i' by (simp add: pos_imp_zdiv_nonneg_iff)
  show ?thesis
    using i s assms(3,4) d
    by (simp add: getPositionAndCircle_def whole_second_placement_def Let_def i'
        sdiv_nonneg smod_nonneg)
qed


lemma whole_second_placement_range:
  assumes "0 < tw_slotNum tw"
  shows "0 \<le> fst (whole_second_placement tw d)"
    and "fst (whole_second_placement tw d) < tw_slotNum tw"
  using assms by (simp_all add: whole_second_placement_def Let_def)

section \<open>New\<close>

lemma init_loop_fills:
  "0 \<le> i \<Longrightarrow> i \<le> tw_slotNum tw \<Longrightarrow> length (tw_slots tw) = nat (tw_slotNum tw) \<Longrightarrow>
   init_loop tw i =
     Inr (tw\<lparr>tw_slots := take (nat i) (tw_slots tw) @
                             replicate (nat (tw_slotNum tw - i)) (Ref [])\<rparr>)"
proof (induction tw i rule: init_loop.induct)
  case (1 tw i)
  show ?case
  proof (cases "i < tw_slotNum tw")
    case False
    with "1.prems" have "i = tw_slotNum tw" by simp
    with "1.prems" show ?thesis by (subst init_loop.simps) simp
  next
    case True
    let ?tw = "tw\<lparr>tw_slots := (tw_slots tw)[nat i := Ref []]\<rparr>"
    have inr: "\<not> (i < 0 \<or> int (length (tw_slots tw)) \<le> i)"
      using True "1.prems" by simp
    have step: "init_loop tw i = init_loop ?tw (i + 1)"
      using True inr by (subst init_loop.simps) simp
    have ih: "init_loop ?tw (i + 1) =
      Inr (?tw\<lparr>tw_slots := take (nat (i + 1)) (tw_slots ?tw) @
                              replicate (nat (tw_slotNum ?tw - (i + 1))) (Ref [])\<rparr>)"
      using "1.IH" [OF True inr] True "1.prems" by simp
    have n: "nat (i + 1) = Suc (nat i)" using "1.prems" by simp
    have lt: "nat i < length (tw_slots tw)" using True "1.prems" by simp
    have r: "nat (tw_slotNum tw - i) = Suc (nat (tw_slotNum tw - (i + 1)))"
      using True by simp
    have t: "take (Suc (nat i)) ((tw_slots tw)[nat i := Ref []]) =
          take (nat i) (tw_slots tw) @ [Ref []]"
      using lt by (simp add: take_Suc_conv_app_nth)
    show ?thesis
      unfolding step ih n r using t by (simp add: replicate_app_Cons_same)
  qed
qed

lemma New_valid:
  "0 < interval \<Longrightarrow> 0 < slotNum \<Longrightarrow> New interval slotNum = Inr (Ref (empty_wheel interval slotNum))"
  by (simp add: New_def init_def init_loop_fills empty_wheel_def)

lemma New_invalid:
  "interval \<le> 0 \<or> slotNum \<le> 0 \<Longrightarrow> New interval slotNum = Inr nil"
  by (simp add: New_def)

lemma well_formed_empty_wheel:
  "0 < slotNum \<Longrightarrow> well_formed (empty_wheel interval slotNum)"
  by (simp add: well_formed_def empty_wheel_def)

text \<open>
  C6. \<open>New\<close> with an interval or a slot count that is not positive returns the nil wheel;
  with both positive it returns a wheel whose cursor is 0 and whose \<open>slotNum\<close> slots are
  all empty lists (and whose registry is empty).
\<close>

theorem New_creates:
  "(interval \<le> 0 \<or> slotNum \<le> 0 \<longrightarrow>
      (New interval slotNum :: panic + ('k, 'j, 'd) TimeWheel pointer) = Inr nil) \<and>
   (0 < interval \<and> 0 < slotNum \<longrightarrow>
      (\<exists>tw :: ('k, 'j, 'd) TimeWheel.
         New interval slotNum = Inr (Ref tw) \<and> tw_currentPos tw = 0 \<and>
         tw_slotNum tw = slotNum \<and> length (tw_slots tw) = nat slotNum \<and>
         (\<forall>s \<in> set (tw_slots tw). s = Ref []) \<and> (\<forall>k. tw_timer tw k = None)))"
proof (intro conjI impI)
  assume "interval \<le> 0 \<or> slotNum \<le> 0"
  then show "(New interval slotNum :: panic + ('k, 'j, 'd) TimeWheel pointer) = Inr nil"
    by (rule New_invalid)
next
  assume "0 < interval \<and> 0 < slotNum"
  then have "(New interval slotNum :: panic + ('k, 'j, 'd) TimeWheel pointer) =
      Inr (Ref (empty_wheel interval slotNum))"
    by (simp add: New_valid)
  then show "\<exists>tw :: ('k, 'j, 'd) TimeWheel.
         New interval slotNum = Inr (Ref tw) \<and> tw_currentPos tw = 0 \<and>
         tw_slotNum tw = slotNum \<and> length (tw_slots tw) = nat slotNum \<and>
         (\<forall>s \<in> set (tw_slots tw). s = Ref []) \<and> (\<forall>k. tw_timer tw k = None)"
    by (simp add: empty_wheel_def)
qed

theorem New_creates_witness:
  "(New 0 3 :: panic + (string, string, string) TimeWheel pointer) = Inr nil \<and>
   (\<exists>tw :: (string, string, string) TimeWheel.
      New 1000000000 3 = Inr (Ref tw) \<and> tw_currentPos tw = 0 \<and>
      tw_slotNum tw = 3 \<and> length (tw_slots tw) = 3 \<and>
      (\<forall>s \<in> set (tw_slots tw). s = Ref []) \<and> (\<forall>k. tw_timer tw k = None))"
  using New_creates [of 0 3, where ?'k = string and ?'j = string and ?'d = string]
    New_creates [of 1000000000 3, where ?'k = string and ?'j = string and ?'d = string]
  by simp

text \<open>
  C7, as the code has it. The only sign of a refused construction is the nil pointer:
  \<open>New\<close> returns nil exactly when the interval or the slot count is not positive, and it
  returns nothing beside that pointer.
\<close>

theorem New_nil_iff:
  "(interval \<le> 0 \<or> slotNum \<le> 0 \<longrightarrow>
      (New interval slotNum :: panic + ('k, 'j, 'd) TimeWheel pointer) = Inr nil) \<and>
   ((New interval slotNum :: panic + ('k, 'j, 'd) TimeWheel pointer) = Inr nil \<longrightarrow>
      interval \<le> 0 \<or> slotNum \<le> 0)"
proof (intro conjI impI)
  assume "interval \<le> 0 \<or> slotNum \<le> 0"
  then show "(New interval slotNum :: panic + ('k, 'j, 'd) TimeWheel pointer) = Inr nil"
    by (rule New_invalid)
next
  assume n: "(New interval slotNum :: panic + ('k, 'j, 'd) TimeWheel pointer) = Inr nil"
  show "interval \<le> 0 \<or> slotNum \<le> 0"
  proof (rule ccontr)
    assume "\<not> (interval \<le> 0 \<or> slotNum \<le> 0)"
    then have "(New interval slotNum :: panic + ('k, 'j, 'd) TimeWheel pointer) =
        Inr (Ref (empty_wheel interval slotNum))"
      by (simp add: New_valid)
    with n show False by simp
  qed
qed

theorem New_nil_iff_witness:
  "(New (- 5) 3 :: panic + (string, string, string) TimeWheel pointer) = Inr nil \<and>
   (New 1000000000 3 :: panic + (string, string, string) TimeWheel pointer) \<noteq> Inr nil"
  using New_nil_iff [of "- 5" 3, where ?'k = string and ?'j = string and ?'d = string]
    New_nil_iff [of 1000000000 3, where ?'k = string and ?'j = string and ?'d = string]
  by auto

text \<open>
  C7, as stated, fails: a call with interval 0 (or with slot count 0) returns the nil
  pointer, and that is all the caller gets.
\<close>

theorem New_silent_nil_counterexample:
  "(New 0 5 :: panic + (string, string, string) TimeWheel pointer) = Inr nil \<and>
   (New 1000000000 0 :: panic + (string, string, string) TimeWheel pointer) = Inr nil"
  by (simp add: New_def)

section \<open>Counting the tasks of a key\<close>

lemma tasks_in_simps [simp]: "tasks_in nil = []" "tasks_in (Ref l) = l"
  by (simp_all add: tasks_in_def)

lemma count_key_simps [simp]:
  "count_key k [] = 0"
  "count_key k (t # xs) = (if task_key t = k then Suc (count_key k xs) else count_key k xs)"
  "count_key k (xs @ ys) = count_key k xs + count_key k ys"
  by (simp_all add: count_key_def)

lemma count_key_Remove:
  assumes "e < length xs"
  shows "count_key k xs = count_key k (Remove xs e) + (if task_key (xs ! e) = k then 1 else 0)"
proof -
  have "xs = take e xs @ xs ! e # drop (Suc e) xs"
    using assms by (simp add: id_take_nth_drop)
  then have "count_key k xs = count_key k (take e xs @ xs ! e # drop (Suc e) xs)" by simp
  then show ?thesis by (simp add: Remove_def)
qed

lemma count_key_list_update:
  assumes "e < length xs" "task_key t = task_key (xs ! e)"
  shows "count_key k (xs[e := t]) = count_key k xs"
proof -
  have "xs = take e xs @ xs ! e # drop (Suc e) xs"
    using assms by (simp add: id_take_nth_drop)
  then have "count_key k xs = count_key k (take e xs @ xs ! e # drop (Suc e) xs)" by simp
  moreover have "xs[e := t] = take e xs @ t # drop (Suc e) xs"
    using assms by (simp add: upd_conv_take_nth_drop)
  ultimately show ?thesis using assms(2) by simp
qed

lemma count_key_0_iff: "count_key k xs = 0 \<longleftrightarrow> (\<forall>t \<in> set xs. task_key t \<noteq> k)"
  by (induction xs) auto

lemma count_key_pos: "t \<in> set xs \<Longrightarrow> 0 < count_key (task_key t) xs"
  using count_key_0_iff [of "task_key t" xs] by auto

lemma counts_okI:
  assumes "\<And>k p. p < length slots \<Longrightarrow>
             count_key k (tasks_in (slots ! p)) = (if timer k = Some (int p) then 1 else 0)"
    and "\<And>k p. timer k = Some p \<Longrightarrow> 0 \<le> p \<and> nat p < length slots"
  shows "counts_ok slots timer"
  using assms unfolding counts_ok_def by blast

lemma counts_ok_count:
  "counts_ok slots timer \<Longrightarrow> p < length slots \<Longrightarrow>
   count_key k (tasks_in (slots ! p)) = (if timer k = Some (int p) then 1 else 0)"
  unfolding counts_ok_def by blast

lemma counts_ok_range:
  "counts_ok slots timer \<Longrightarrow> timer k = Some p \<Longrightarrow> 0 \<le> p \<and> nat p < length slots"
  unfolding counts_ok_def by blast

lemma counts_ok_member:
  assumes "counts_ok slots timer" "p < length slots" "t \<in> set (tasks_in (slots ! p))"
  shows "timer (task_key t) = Some (int p)"
proof (rule ccontr)
  assume "timer (task_key t) \<noteq> Some (int p)"
  with counts_ok_count [OF assms(1,2), of "task_key t"]
  have "count_key (task_key t) (tasks_in (slots ! p)) = 0" by simp
  with count_key_pos [OF assms(3)] show False by simp
qed

lemma counts_ok_Remove:
  assumes ok: "counts_ok slots timer" and p: "p < length slots" and s: "slots ! p = Ref xs"
    and e: "e < length xs"
  shows "counts_ok (slots[p := Ref (Remove xs e)]) (timer(task_key (xs ! e) := None))"
proof (rule counts_okI)
  let ?k0 = "task_key (xs ! e)"
  have mem: "xs ! e \<in> set (tasks_in (slots ! p))" using s e by simp
  have t0: "timer ?k0 = Some (int p)" by (rule counts_ok_member [OF ok p mem])
  fix k q
  assume q: "q < length (slots[p := Ref (Remove xs e)])"
  then have c: "count_key k (tasks_in (slots ! q)) = (if timer k = Some (int q) then 1 else 0)"
    using counts_ok_count [OF ok, of q k] by simp
  have r: "count_key k xs = count_key k (Remove xs e) + (if ?k0 = k then 1 else 0)"
    by (rule count_key_Remove [OF e])
  show "count_key k (tasks_in (slots[p := Ref (Remove xs e)] ! q)) =
        (if (timer(?k0 := None)) k = Some (int q) then 1 else 0)"
  proof (cases "q = p")
    case True
    then show ?thesis using p c r s t0 by (auto split: if_splits)
  next
    case False
    then show ?thesis using q c t0 by (auto split: if_splits)
  qed
next
  fix k q
  assume "(timer(task_key (xs ! e) := None)) k = Some q"
  then have "timer k = Some q" by (simp split: if_splits)
  with counts_ok_range [OF ok this]
  show "0 \<le> q \<and> nat q < length (slots[p := Ref (Remove xs e)])" by simp
qed

lemma counts_ok_same_counts:
  assumes ok: "counts_ok slots timer" and p: "p < length slots" and s: "slots ! p = Ref xs"
    and same: "\<And>k. count_key k ys = count_key k xs"
  shows "counts_ok (slots[p := Ref ys]) timer"
proof (rule counts_okI)
  fix k q
  assume q: "q < length (slots[p := Ref ys])"
  then have c: "count_key k (tasks_in (slots ! q)) = (if timer k = Some (int q) then 1 else 0)"
    using counts_ok_count [OF ok, of q k] by simp
  show "count_key k (tasks_in (slots[p := Ref ys] ! q)) =
        (if timer k = Some (int q) then 1 else 0)"
    using c p s same [of k] by (cases "q = p") auto
next
  fix k q
  assume "timer k = Some q"
  from counts_ok_range [OF ok this]
  show "0 \<le> q \<and> nat q < length (slots[p := Ref ys])" by simp
qed

lemma counts_ok_PushBack:
  assumes ok: "counts_ok slots timer" and fresh: "timer (task_key t) = None"
    and pos: "0 \<le> pos" "nat pos < length slots" and s: "slots ! nat pos = Ref xs"
  shows "counts_ok (slots[nat pos := Ref (xs @ [t])]) (timer(task_key t := Some pos))"
proof (rule counts_okI)
  fix k q
  assume q: "q < length (slots[nat pos := Ref (xs @ [t])])"
  then have c: "count_key k (tasks_in (slots ! q)) = (if timer k = Some (int q) then 1 else 0)"
    using counts_ok_count [OF ok, of q k] by simp
  show "count_key k (tasks_in (slots[nat pos := Ref (xs @ [t])] ! q)) =
        (if (timer(task_key t := Some pos)) k = Some (int q) then 1 else 0)"
  proof (cases "q = nat pos")
    case True
    then show ?thesis using c pos s fresh by (auto split: if_splits)
  next
    case False
    then show ?thesis using c pos q fresh by (auto split: if_splits)
  qed
next
  fix k q
  assume "(timer(task_key t := Some pos)) k = Some q"
  then have "q = pos \<or> timer k = Some q" by (auto split: if_splits)
  then show "0 \<le> q \<and> nat q < length (slots[nat pos := Ref (xs @ [t])])"
    using counts_ok_range [OF ok, of k q] pos by auto
qed

section \<open>Adding a task\<close>

lemma well_formed_slot:
  "well_formed tw \<Longrightarrow> p < length (tw_slots tw) \<Longrightarrow> tw_slots tw ! p = Ref (slot_tasks tw p)"
  by (cases "tw_slots tw ! p") (auto simp: well_formed_def slot_tasks_def tasks_in_def dest: nth_mem)

lemma addTask_whole:
  assumes wf: "well_formed tw" and i: "Second \<le> tw_interval tw" and d: "0 \<le> task_interval task"
    and w: "whole_second_placement tw (task_interval task) = (pos, circle)"
  shows "addTask tw task =
     Inr (tw\<lparr>tw_slots := (tw_slots tw)[nat pos :=
                  Ref (slot_tasks tw (nat pos) @ [task\<lparr>task_circle := circle\<rparr>])],
             tw_timer := (tw_timer tw)(task_key task := Some pos)\<rparr>)"
proof -
  have n: "0 < tw_slotNum tw" and c: "0 \<le> tw_currentPos tw"
    and len: "length (tw_slots tw) = nat (tw_slotNum tw)"
    using wf by (simp_all add: well_formed_def)
  have g: "getPositionAndCircle tw (task_interval task) = Inr (pos, circle)"
    using getPositionAndCircle_whole [OF i d n c] w by simp
  have r: "0 \<le> pos" "pos < tw_slotNum tw"
    using whole_second_placement_range [OF n, of "task_interval task"] w by simp_all
  then have "nat pos < length (tw_slots tw)" using len by simp
  then have "tw_slots tw ! nat pos = Ref (slot_tasks tw (nat pos))"
    using wf by (simp add: well_formed_slot)
  with g r len show ?thesis
    by (simp add: addTask_def PushBack_def)
qed




lemma getPositionAndCircle_subsecond:
  "0 < tw_interval tw \<Longrightarrow> tw_interval tw < Second \<Longrightarrow>
   getPositionAndCircle tw d = Inl DivideByZero"
  by (simp add: getPositionAndCircle_def int_Seconds_zero_iff)

lemma addTask_subsecond:
  "0 < tw_interval tw \<Longrightarrow> tw_interval tw < Second \<Longrightarrow> addTask tw task = Inl DivideByZero"
  by (simp add: addTask_def getPositionAndCircle_subsecond)

lemma scan_step_rearm_subsecond:
  assumes "0 < tw_interval tw" "tw_interval tw < Second"
    and "tw_slots tw ! l = Ref xs"
    and "task_times (xs ! item) \<noteq> 0" "\<not> 0 < task_circle (xs ! item)"
    and "0 < task_times (xs ! item) \<or> task_times (xs ! item) = - 1"
  shows "scan_step tw l item = Inl DivideByZero"
  using assms by (auto simp add: scan_step_def Let_def addTask_subsecond)

text \<open>
  C3. On a wheel whose interval is positive and below one second, the interval in whole
  seconds is 0: every Add command panics with a division by zero, and so does the
  re-arming of a due task that has runs left (or runs for ever). For a positive interval
  and slot count the placement has a result exactly when the interval is at least one
  second.
\<close>

theorem subsecond_interval_divides_by_zero:
  assumes "0 < tw_interval tw"
  shows "(tw_interval tw < Second \<longrightarrow>
            addTask tw task = Inl DivideByZero \<and>
            handle tw (AddTaskChannel task) = Some (Inl DivideByZero) \<and>
            (\<forall>l xs item.
               tw_slots tw ! l = Ref xs \<and> task_times (xs ! item) \<noteq> 0 \<and>
               \<not> 0 < task_circle (xs ! item) \<and>
               (0 < task_times (xs ! item) \<or> task_times (xs ! item) = - 1) \<longrightarrow>
               scan_step tw l item = Inl DivideByZero \<and>
               scan_loop tw l (Ref item) = Some (Inl DivideByZero))) \<and>
         (0 < tw_slotNum tw \<longrightarrow>
            ((\<exists>r. getPositionAndCircle tw d = Inr r) \<longleftrightarrow> Second \<le> tw_interval tw))"
proof (intro conjI impI allI)
  assume s: "tw_interval tw < Second"
  show "addTask tw task = Inl DivideByZero"
    using assms s by (rule addTask_subsecond)
  then show "handle tw (AddTaskChannel task) = Some (Inl DivideByZero)" by simp
  fix l xs item
  assume h: "tw_slots tw ! l = Ref xs \<and> task_times (xs ! item) \<noteq> 0 \<and>
       \<not> 0 < task_circle (xs ! item) \<and>
       (0 < task_times (xs ! item) \<or> task_times (xs ! item) = - 1)"
  from h have h1: "tw_slots tw ! l = Ref xs" and h2: "task_times (xs ! item) \<noteq> 0"
    and h3: "\<not> 0 < task_circle (xs ! item)"
    and h4: "0 < task_times (xs ! item) \<or> task_times (xs ! item) = - 1"
    by blast+
  show st: "scan_step tw l item = Inl DivideByZero"
    by (rule scan_step_rearm_subsecond [OF assms s h1 h2 h3 h4])
  show "scan_loop tw l (Ref item) = Some (Inl DivideByZero)"
    by (subst scan_loop.simps) (simp add: st)
next
  assume n: "0 < tw_slotNum tw"
  show "(\<exists>r. getPositionAndCircle tw d = Inr r) \<longleftrightarrow> Second \<le> tw_interval tw"
  proof (cases "tw_interval tw < Second")
    case True
    then show ?thesis using assms by (simp add: getPositionAndCircle_subsecond)
  next
    case False
    then have "0 < int_Seconds (tw_interval tw)" by (simp add: int_Seconds_pos)
    with False n show ?thesis by (simp add: getPositionAndCircle_def Let_def)
  qed
qed

theorem subsecond_interval_divides_by_zero_witness:
  "New 500000000 3 = Inr (Ref (sample_wheel 500000000 3)) \<and>
   addTask (sample_wheel 500000000 3) (sample_task ''K'' 2000000000 1) = Inl DivideByZero \<and>
   handle (sample_wheel 500000000 3) (AddTaskChannel (sample_task ''K'' 2000000000 1)) =
     Some (Inl DivideByZero) \<and>
   (\<exists>r. getPositionAndCircle (sample_wheel 1000000000 3) 2000000000 = Inr r)"
proof -
  have a: "(0::int) < tw_interval (sample_wheel 500000000 3)"
    and b: "tw_interval (sample_wheel 500000000 3) < Second"
    and c: "(0::int) < tw_interval (sample_wheel 1000000000 3)"
    and d: "(0::int) < tw_slotNum (sample_wheel 1000000000 3)"
    and e: "Second \<le> tw_interval (sample_wheel 1000000000 3)"
    by (simp_all add: sample_wheel_def empty_wheel_def Second_def)
  have n: "New 500000000 3 = Inr (Ref (sample_wheel 500000000 3))"
    by (simp add: New_valid sample_wheel_def)
  from subsecond_interval_divides_by_zero [OF a, of "sample_task ''K'' 2000000000 1"] b
    subsecond_interval_divides_by_zero [OF c, of _ 2000000000] d e n
  show ?thesis by blast
qed

section \<open>Updating a task\<close>

text \<open>
  C9. An Update command for a key that the registry does not hold leaves the wheel as it
  was: the handler returns the very same state.
\<close>

theorem update_unknown_key_noop:
  "tw_timer tw (update_key update) = None \<Longrightarrow>
   updateTask tw update = Inr tw \<and> handle tw (UpdateTaskChannel update) = Some (Inr tw)"
  by (simp add: updateTask_def)

theorem update_unknown_key_noop_witness:
  "tw_timer (sample_wheel 1000000000 3) ''K'' = None \<and>
   handle (sample_wheel 1000000000 3)
     (UpdateTaskChannel \<lparr>update_key = ''K'', update_interval = 5, update_taskData = ''new''\<rparr>) =
   Some (Inr (sample_wheel 1000000000 3))"
proof -
  have "tw_timer (sample_wheel 1000000000 3)
          (update_key \<lparr>update_key = ''K'', update_interval = 5, update_taskData = ''new''\<rparr>) = None"
    by (simp add: sample_wheel_def empty_wheel_def)
  from update_unknown_key_noop [OF this] show ?thesis
    by (simp add: sample_wheel_def empty_wheel_def)
qed

section \<open>One pass of the scan\<close>

lemma scan_step_evict:
  assumes "tw_slots tw ! l = Ref xs" "task_times (xs ! item) = 0"
  shows "scan_step tw l item =
     Inr (tw\<lparr>tw_slots := (tw_slots tw)[l := Ref (Remove xs item)],
             tw_timer := (tw_timer tw)(task_key (xs ! item) := None)\<rparr>,
          moved item (Next xs item))"
  using assms by (simp add: scan_step_def Let_def)

lemma scan_step_wait:
  assumes "tw_slots tw ! l = Ref xs" "task_times (xs ! item) \<noteq> 0" "0 < task_circle (xs ! item)"
  shows "scan_step tw l item =
     Inr (tw\<lparr>tw_slots := (tw_slots tw)[l :=
                 Ref (xs[item := (xs ! item)\<lparr>task_circle := task_circle (xs ! item) - 1\<rparr>])]\<rparr>,
          Next xs item)"
  using assms by (simp add: scan_step_def Let_def)

lemma scan_step_fire_once:
  assumes "tw_slots tw ! l = Ref xs" "task_times (xs ! item) \<noteq> 0" "\<not> 0 < task_circle (xs ! item)"
    and "\<not> (0 < task_times (xs ! item) \<or> task_times (xs ! item) = - 1)"
  shows "scan_step tw l item =
     Inr (tw\<lparr>tw_dispatched := tw_dispatched tw @ [xs ! item],
             tw_slots := (tw_slots tw)[l := Ref (Remove xs item)],
             tw_timer := (tw_timer tw)(task_key (xs ! item) := None)\<rparr>,
          moved item (Next xs item))"
  using assms by (simp add: scan_step_def Let_def)

lemma scan_step_fire_rearm:
  assumes "tw_slots tw ! l = Ref xs" "task_times (xs ! item) \<noteq> 0" "\<not> 0 < task_circle (xs ! item)"
    and "0 < task_times (xs ! item) \<or> task_times (xs ! item) = - 1"
  shows "scan_step tw l item =
     (case addTask (tw\<lparr>tw_dispatched := tw_dispatched tw @ [xs ! item],
                       tw_slots := (tw_slots tw)[l := Ref (Remove xs item)],
                       tw_timer := (tw_timer tw)(task_key (xs ! item) := None)\<rparr>)
                   (rearmed (xs ! item)) of
        Inl e \<Rightarrow> Inl e
      | Inr tw' \<Rightarrow> Inr (tw', moved item (Next xs item)))"
  using assms by (auto simp add: scan_step_def Let_def rearmed_def)

lemma addTask_InrE:
  assumes "addTask tw task = Inr tw'"
  obtains pos circle xs where "0 \<le> pos" "nat pos < length (tw_slots tw)"
    "tw_slots tw ! nat pos = Ref xs"
    "getPositionAndCircle tw (task_interval task) = Inr (pos, circle)"
    "tw' = tw\<lparr>tw_slots := (tw_slots tw)[nat pos := Ref (xs @ [task\<lparr>task_circle := circle\<rparr>])],
              tw_timer := (tw_timer tw)(task_key task := Some pos)\<rparr>"
proof -
  from assms obtain pos circle
    where g: "getPositionAndCircle tw (task_interval task) = Inr (pos, circle)"
    by (cases "getPositionAndCircle tw (task_interval task)") (auto simp: addTask_def)
  from assms g have r: "\<not> (pos < 0 \<or> int (length (tw_slots tw)) \<le> pos)"
    by (auto simp: addTask_def Let_def split: if_splits)
  from assms g r obtain xs where s: "tw_slots tw ! nat pos = Ref xs"
    by (cases "tw_slots tw ! nat pos") (auto simp: addTask_def Let_def)
  from assms g r s
  have "tw' = tw\<lparr>tw_slots := (tw_slots tw)[nat pos := Ref (xs @ [task\<lparr>task_circle := circle\<rparr>])],
              tw_timer := (tw_timer tw)(task_key task := Some pos)\<rparr>"
    by (simp add: addTask_def Let_def PushBack_def)
  moreover from r have "0 \<le> pos" "nat pos < length (tw_slots tw)" by linarith+
  ultimately show thesis using s g by (rule_tac that)
qed

lemma well_formed_slots_update:
  assumes "well_formed tw" "tw_slotNum tw' = tw_slotNum tw" "tw_currentPos tw' = tw_currentPos tw"
    and "tw_slots tw' = (tw_slots tw)[p := Ref ys]"
  shows "well_formed tw'"
proof -
  have "set ((tw_slots tw)[p := Ref ys]) \<subseteq> insert (Ref ys) (set (tw_slots tw))"
    by (rule set_update_subset_insert)
  then have "\<forall>s \<in> set ((tw_slots tw)[p := Ref ys]). s \<noteq> nil"
    using assms(1) by (auto simp: well_formed_def)
  then show ?thesis using assms by (simp add: well_formed_def)
qed

lemma wheel_inv_addTask:
  assumes inv: "wheel_inv tw" and fresh: "tw_timer tw (task_key task) = None"
    and add: "addTask tw task = Inr tw'"
  shows "wheel_inv tw'"
proof -
  from add obtain pos circle xs where pos: "0 \<le> pos" "nat pos < length (tw_slots tw)"
    and s: "tw_slots tw ! nat pos = Ref xs"
    and tw': "tw' = tw\<lparr>tw_slots := (tw_slots tw)[nat pos := Ref (xs @ [task\<lparr>task_circle := circle\<rparr>])],
              tw_timer := (tw_timer tw)(task_key task := Some pos)\<rparr>"
    by (rule addTask_InrE)
  have ok: "counts_ok (tw_slots tw) (tw_timer tw)" and wf: "well_formed tw"
    using inv by (simp_all add: wheel_inv_def)
  have "counts_ok ((tw_slots tw)[nat pos := Ref (xs @ [task\<lparr>task_circle := circle\<rparr>])])
          ((tw_timer tw)(task_key (task\<lparr>task_circle := circle\<rparr>) := Some pos))"
    by (rule counts_ok_PushBack [OF ok _ pos s]) (simp add: fresh)
  moreover have "well_formed tw'"
    by (rule well_formed_slots_update [OF wf]) (simp_all add: tw')
  ultimately show ?thesis by (simp add: wheel_inv_def tw')
qed

lemma item_ok_moved:
  assumes "tw_slots tw' ! l = Ref ys" "length (Remove xs item) \<le> length ys" "item < length xs"
  shows "item_ok tw' l (moved item (Next xs item))"
  using assms
  by (auto simp: item_ok_def moved_def Next_def slot_tasks_def Remove_def split: pointer.splits)

lemma scan_step_inv:
  assumes inv: "wheel_inv tw" and l: "l < length (tw_slots tw)" and s: "tw_slots tw ! l = Ref xs"
    and item: "item < length xs" and step: "scan_step tw l item = Inr (tw', item')"
  shows "wheel_inv tw' \<and> length (tw_slots tw') = length (tw_slots tw) \<and> item_ok tw' l item' \<and>
         tw_currentPos tw' = tw_currentPos tw \<and> tw_slotNum tw' = tw_slotNum tw \<and>
         tw_interval tw' = tw_interval tw"
proof -
  have ok: "counts_ok (tw_slots tw) (tw_timer tw)" and wf: "well_formed tw"
    using inv by (simp_all add: wheel_inv_def)
  let ?t = "xs ! item"
  let ?rm = "tw\<lparr>tw_slots := (tw_slots tw)[l := Ref (Remove xs item)],
                 tw_timer := (tw_timer tw)(task_key ?t := None)\<rparr>"
  have ok_rm: "counts_ok ((tw_slots tw)[l := Ref (Remove xs item)])
                 ((tw_timer tw)(task_key ?t := None))"
    by (rule counts_ok_Remove [OF ok l s item])
  have inv_rm: "wheel_inv ?rm"
    using ok_rm well_formed_slots_update [OF wf, of ?rm l "Remove xs item"]
    by (simp add: wheel_inv_def)
  consider (evict) "task_times ?t = 0"
    | (wait) "task_times ?t \<noteq> 0" "0 < task_circle ?t"
    | (once) "task_times ?t \<noteq> 0" "\<not> 0 < task_circle ?t"
        "\<not> (0 < task_times ?t \<or> task_times ?t = - 1)"
    | (rearm) "task_times ?t \<noteq> 0" "\<not> 0 < task_circle ?t"
        "0 < task_times ?t \<or> task_times ?t = - 1"
    by blast
  then show ?thesis
  proof cases
    case evict
    from scan_step_evict [OF s evict] step
    have tw': "tw' = ?rm" and i': "item' = moved item (Next xs item)" by simp_all
    have "item_ok tw' l item'"
      unfolding i' by (rule item_ok_moved [where ys = "Remove xs item"]) (simp_all add: tw' l item)
    with inv_rm show ?thesis by (simp add: tw')
  next
    case wait
    let ?ys = "xs[item := ?t\<lparr>task_circle := task_circle ?t - 1\<rparr>]"
    from scan_step_wait [OF s wait] step
    have tw': "tw' = tw\<lparr>tw_slots := (tw_slots tw)[l := Ref ?ys]\<rparr>"
      and i': "item' = Next xs item" by simp_all
    have "counts_ok ((tw_slots tw)[l := Ref ?ys]) (tw_timer tw)"
      by (rule counts_ok_same_counts [OF ok l s]) (simp add: count_key_list_update item)
    moreover have "well_formed tw'"
      by (rule well_formed_slots_update [OF wf]) (simp_all add: tw')
    moreover have "item_ok tw' l item'"
      using l by (auto simp: item_ok_def i' Next_def tw' slot_tasks_def split: pointer.splits)
    ultimately show ?thesis by (simp add: wheel_inv_def tw')
  next
    case once
    from scan_step_fire_once [OF s once] step
    have tw': "tw' = ?rm\<lparr>tw_dispatched := tw_dispatched tw @ [?t]\<rparr>"
      and i': "item' = moved item (Next xs item)" by simp_all
    have "item_ok tw' l item'"
      unfolding i' by (rule item_ok_moved [where ys = "Remove xs item"]) (simp_all add: tw' l item)
    moreover have "wheel_inv tw'"
      using inv_rm by (simp add: wheel_inv_def tw' well_formed_def)
    ultimately show ?thesis by (simp add: tw')
  next
    case rearm
    let ?d = "tw\<lparr>tw_dispatched := tw_dispatched tw @ [?t],
                  tw_slots := (tw_slots tw)[l := Ref (Remove xs item)],
                  tw_timer := (tw_timer tw)(task_key ?t := None)\<rparr>"
    from scan_step_fire_rearm [OF s rearm] step
    have add: "addTask ?d (rearmed ?t) = Inr tw'" and i': "item' = moved item (Next xs item)"
      by (auto split: sum.splits)
    have inv_d: "wheel_inv ?d"
      using inv_rm by (simp add: wheel_inv_def well_formed_def)
    have k: "task_key (rearmed ?t) = task_key ?t" by (simp add: rearmed_def)
    have inv': "wheel_inv tw'"
      by (rule wheel_inv_addTask [OF inv_d _ add]) (simp add: k)
    from add obtain pos circle ys where pos: "0 \<le> pos" "nat pos < length (tw_slots ?d)"
      and sp: "tw_slots ?d ! nat pos = Ref ys"
      and tw': "tw' = ?d\<lparr>tw_slots := (tw_slots ?d)[nat pos :=
                              Ref (ys @ [(rearmed ?t)\<lparr>task_circle := circle\<rparr>])],
                          tw_timer := (tw_timer ?d)(task_key (rearmed ?t) := Some pos)\<rparr>"
      by (rule addTask_InrE)
    have "item_ok tw' l item'"
    proof (cases "nat pos = l")
      case True
      with sp l have ys: "ys = Remove xs item" by simp
      show ?thesis unfolding i'
        by (rule item_ok_moved [where ys = "ys @ [(rearmed ?t)\<lparr>task_circle := circle\<rparr>]"])
          (use True l item ys in \<open>simp_all add: tw'\<close>)
    next
      case False
      show ?thesis unfolding i'
        by (rule item_ok_moved [where ys = "Remove xs item"])
          (use False l item in \<open>simp_all add: tw'\<close>)
    qed
    with inv' show ?thesis by (simp add: tw')
  qed
qed

section \<open>The loops of update and remove\<close>

lemma updateTask_loop_from:
  "e < length l \<Longrightarrow>
   updateTask_loop update l (Ref e) = take e l @ map (overwrite update) (drop e l)"
proof (induction "length l - e" arbitrary: l e)
  case 0
  then show ?case by simp
next
  case (Suc n)
  let ?l = "l[e := overwrite update (l ! e)]"
  have step: "updateTask_loop update l (Ref e) = updateTask_loop update ?l (Next ?l e)"
    by (subst updateTask_loop.simps) (simp add: overwrite_def Let_def)
  have split: "drop e l = l ! e # drop (Suc e) l"
    using Suc.prems by (simp add: Cons_nth_drop_Suc)
  show ?case
  proof (cases "Suc e < length l")
    case False
    then have "drop (Suc e) l = []" by simp
    with False Suc.prems show ?thesis
      unfolding step split
      by (simp add: Next_def upd_conv_take_nth_drop updateTask_loop.simps(1))
  next
    case True
    have n: "n = length ?l - Suc e" using Suc.hyps(2) by simp
    have "updateTask_loop update ?l (Ref (Suc e)) =
          take (Suc e) ?l @ map (overwrite update) (drop (Suc e) ?l)"
      using Suc.hyps(1) [OF n] True by simp
    with True Suc.prems show ?thesis
      unfolding step split by (simp add: Next_def take_Suc_conv_app_nth)
  qed
qed

lemma updateTask_loop_Front:
  "updateTask_loop update l (Front l) = map (overwrite update) l"
  by (cases "l = []") (simp_all add: Front_def updateTask_loop_from updateTask_loop.simps(1))

lemma updateTask_known:
  assumes "tw_timer tw (update_key update) = Some position"
    and "0 \<le> position" and "nat position < length (tw_slots tw)"
    and "tw_slots tw ! nat position = Ref l"
  shows "updateTask tw update =
           Inr (tw\<lparr>tw_slots := (tw_slots tw)[nat position := Ref (map (overwrite update) l)]\<rparr>)"
  using assms by (simp add: updateTask_def updateTask_loop_Front)

section \<open>The invariant of the wheel\<close>

lemma scan_loop_invariant:
  fixes tw :: "('k, 'j, 'd) TimeWheel"
  assumes run: "scan_loop tw l item = Some (Inr tw')"
    and start: "I tw item"
    and step: "\<And>tw e tw1 item1. I tw (Ref e) \<Longrightarrow> scan_step tw l e = Inr (tw1, item1) \<Longrightarrow> I tw1 item1"
  shows "I tw' nil"
proof -
  let ?P = "\<lambda>tw l0 item (y :: panic + ('k, 'j, 'd) TimeWheel).
              l0 = l \<longrightarrow> I tw item \<longrightarrow> (\<forall>tw'. y = Inr tw' \<longrightarrow> I tw' nil)"
  have "?P tw l item (Inr tw')"
  proof (rule scan_loop.raw_induct [where P = ?P, OF _ run])
    fix f tw l0 item y
    assume IH: "\<And>tw l0 item y. f tw l0 item = Some y \<Longrightarrow> ?P tw l0 item y"
      and body: "(case item of nil \<Rightarrow> Some (Inr tw)
                  | Ref e \<Rightarrow>
                      (case scan_step tw l0 e of Inl err \<Rightarrow> Some (Inl err)
                       | Inr (tw', item') \<Rightarrow> f tw' l0 item')) = Some y"
    show "?P tw l0 item y"
    proof (intro impI allI)
      fix tw'
      assume l0: "l0 = l" and i: "I tw item" and y: "y = Inr tw'"
      show "I tw' nil"
      proof (cases item)
        case nil
        with body y i show ?thesis by simp
      next
        case (Ref e)
        show ?thesis
        proof (cases "scan_step tw l e")
          case (Inl err)
          with body Ref y l0 show ?thesis by simp
        next
          case (Inr r)
          obtain tw1 item1 where r: "r = (tw1, item1)" by (cases r)
          from body Ref Inr r l0 have "f tw1 l item1 = Some y" by simp
          moreover have "I tw1 item1" using step i Ref Inr r by simp
          ultimately show ?thesis using IH y by blast
        qed
      qed
    qed
  qed
  with start show ?thesis by simp
qed

lemma scan_inv_step:
  assumes "scan_inv tw0 l tw (Ref e)" "scan_step tw l e = Inr (tw1, item1)"
  shows "scan_inv tw0 l tw1 item1"
proof -
  from assms(1) have inv: "wheel_inv tw" and l: "l < length (tw_slots tw)"
    and e: "e < length (slot_tasks tw l)"
    by (simp_all add: scan_inv_def item_ok_def)
  have s: "tw_slots tw ! l = Ref (slot_tasks tw l)"
    using inv l by (simp add: wheel_inv_def well_formed_slot)
  from scan_step_inv [OF inv l s e assms(2)] assms(1) l show ?thesis
    by (simp add: scan_inv_def)
qed

lemma scanAddRunTask_inv:
  assumes inv: "wheel_inv tw" and l: "l < length (tw_slots tw)"
    and run: "scanAddRunTask tw l = Some (Inr tw')"
  shows "wheel_inv tw' \<and> tw_currentPos tw' = tw_currentPos tw \<and>
         tw_slotNum tw' = tw_slotNum tw \<and> tw_interval tw' = tw_interval tw"
proof -
  have s: "tw_slots tw ! l = Ref (slot_tasks tw l)"
    using inv l by (simp add: wheel_inv_def well_formed_slot)
  with run have loop: "scan_loop tw l (Front (slot_tasks tw l)) = Some (Inr tw')"
    by (simp add: scanAddRunTask_def)
  have "scan_inv tw l tw (Front (slot_tasks tw l))"
    using inv l by (simp add: scan_inv_def item_ok_def Front_def)
  from scan_loop_invariant [where I = "scan_inv tw l", OF loop this scan_inv_step]
  show ?thesis by (simp add: scan_inv_def)
qed

lemma tickHandler_inv:
  assumes inv: "wheel_inv tw" and run: "tickHandler tw = Some (Inr tw')"
  shows "wheel_inv tw'"
proof -
  have wf: "well_formed tw" using inv by (simp add: wheel_inv_def)
  then have r: "\<not> (tw_currentPos tw < 0 \<or> int (length (tw_slots tw)) \<le> tw_currentPos tw)"
    and l: "nat (tw_currentPos tw) < length (tw_slots tw)"
    by (simp_all add: well_formed_def)
  from run r obtain tw1 where s: "scanAddRunTask tw (nat (tw_currentPos tw)) = Some (Inr tw1)"
    and tw': "tw' = (if tw_currentPos tw1 = tw_slotNum tw1 - 1
                     then tw1\<lparr>tw_currentPos := 0\<rparr>
                     else tw1\<lparr>tw_currentPos := tw_currentPos tw1 + 1\<rparr>)"
    by (auto simp: tickHandler_def split: option.splits sum.splits)
  from scanAddRunTask_inv [OF inv l s] have "wheel_inv tw1" by simp
  then show ?thesis
    by (auto simp: tw' wheel_inv_def well_formed_def)
qed

lemma count_key_map_overwrite: "count_key k (map (overwrite update) xs) = count_key k xs"
  by (induction xs) (simp_all add: overwrite_def)

lemma updateTask_inv:
  assumes inv: "wheel_inv tw" and run: "updateTask tw update = Inr tw'"
  shows "wheel_inv tw'"
proof (cases "tw_timer tw (update_key update)")
  case None
  with run inv show ?thesis by (simp add: updateTask_def)
next
  case (Some position)
  have ok: "counts_ok (tw_slots tw) (tw_timer tw)" and wf: "well_formed tw"
    using inv by (simp_all add: wheel_inv_def)
  from counts_ok_range [OF ok Some]
  have p: "0 \<le> position" "nat position < length (tw_slots tw)" by simp_all
  have s: "tw_slots tw ! nat position = Ref (slot_tasks tw (nat position))"
    using wf p by (simp add: well_formed_slot)
  from updateTask_known [OF Some p s] run
  have tw': "tw' = tw\<lparr>tw_slots := (tw_slots tw)[nat position :=
       Ref (map (overwrite update) (slot_tasks tw (nat position)))]\<rparr>" by simp
  have "counts_ok ((tw_slots tw)[nat position :=
       Ref (map (overwrite update) (slot_tasks tw (nat position)))]) (tw_timer tw)"
    by (rule counts_ok_same_counts [OF ok p(2) s]) (rule count_key_map_overwrite)
  moreover have "well_formed tw'"
    by (rule well_formed_slots_update [OF wf]) (simp_all add: tw')
  ultimately show ?thesis by (simp add: wheel_inv_def tw')
qed

lemma removeTask_loop_first:
  assumes "\<forall>t \<in> set pre. task_key t \<noteq> key" "task_key t = key" "e \<le> length pre"
  shows "removeTask_loop key (timer, pre @ t # post) (Ref e) = (timer(key := None), pre @ post)"
  using assms(3)
proof (induction "length pre - e" arbitrary: e)
  case 0
  then have e: "e = length pre" by simp
  show ?case
    by (subst removeTask_loop.simps)
      (simp add: e assms(2) Remove_def removeTask_loop.simps(1))
next
  case (Suc n)
  then have e: "e < length pre" by simp
  then have k: "task_key ((pre @ t # post) ! e) \<noteq> key"
    using assms(1) by (simp add: nth_append)
  have "removeTask_loop key (timer, pre @ t # post) (Ref e) =
        removeTask_loop key (timer, pre @ t # post) (Ref (Suc e))"
    using e k by (subst removeTask_loop.simps) (simp add: Next_def)
  also have "\<dots> = (timer(key := None), pre @ post)"
    using Suc.hyps(1) [of "Suc e"] Suc.hyps(2) e by simp
  finally show ?case .
qed

lemma removeTask_loop_none:
  assumes "\<forall>t \<in> set l. task_key t \<noteq> key" "e < length l"
  shows "removeTask_loop key (timer, l) (Ref e) = (timer, l)"
  using assms(2)
proof (induction "length l - e" arbitrary: e)
  case 0
  then show ?case by simp
next
  case (Suc n)
  have k: "task_key (l ! e) \<noteq> key" using assms(1) Suc.prems by simp
  show ?case
  proof (cases "Suc e < length l")
    case True
    have "removeTask_loop key (timer, l) (Ref e) = removeTask_loop key (timer, l) (Ref (Suc e))"
      using True k by (subst removeTask_loop.simps) (simp add: Next_def)
    also have "\<dots> = (timer, l)" using Suc.hyps(1) [of "Suc e"] Suc.hyps(2) True by simp
    finally show ?thesis .
  next
    case False
    then show ?thesis using k
      by (subst removeTask_loop.simps) (simp add: Next_def removeTask_loop.simps(1))
  qed
qed

lemma removeTask_loop_Front:
  "removeTask_loop key (timer, l) (Front l) =
     (if \<exists>t \<in> set l. task_key t = key
      then (timer(key := None), takeWhile (\<lambda>t. task_key t \<noteq> key) l @
                                 tl (dropWhile (\<lambda>t. task_key t \<noteq> key) l))
      else (timer, l))"
proof (cases "\<exists>t \<in> set l. task_key t = key")
  case False
  then show ?thesis
    by (cases "l = []") (simp_all add: Front_def removeTask_loop.simps(1) removeTask_loop_none)
next
  case True
  let ?P = "\<lambda>t. task_key t \<noteq> key"
  let ?pre = "takeWhile ?P l" and ?rest = "dropWhile ?P l"
  from True have ne: "?rest \<noteq> []" by (auto simp: dropWhile_eq_Nil_conv)
  then obtain t post where rest: "?rest = t # post" by (cases ?rest) auto
  have t: "task_key t = key" using hd_dropWhile [OF ne] rest by simp
  have l: "l = ?pre @ t # post" using takeWhile_dropWhile_id [of ?P l] rest by simp
  have pre: "\<forall>t \<in> set ?pre. task_key t \<noteq> key" by (auto dest: set_takeWhileD)
  have "removeTask_loop key (timer, ?pre @ t # post) (Ref 0) = (timer(key := None), ?pre @ post)"
    by (rule removeTask_loop_first [OF pre t]) simp
  moreover have "Front l = Ref 0" using l by (cases l) (simp_all add: Front_def)
  ultimately show ?thesis using True l rest by simp
qed

lemma length_takeWhile_less:
  "\<exists>t \<in> set l. \<not> P t \<Longrightarrow> length (takeWhile P l) < length l"
  by (induction l) auto


lemma Remove_takeWhile:
  assumes "\<exists>t \<in> set l. \<not> P t"
  shows "Remove l (length (takeWhile P l)) = takeWhile P l @ tl (dropWhile P l)"
proof -
  have "l = takeWhile P l @ dropWhile P l" by simp
  then have "take (length (takeWhile P l)) l = takeWhile P l"
    and "drop (Suc (length (takeWhile P l))) l = tl (dropWhile P l)"
    by (metis append_eq_conv_conj, metis append_eq_conv_conj drop_Suc tl_drop)
  then show ?thesis by (simp add: Remove_def)
qed

lemma removeTask_known:
  assumes "tw_timer tw key = Some position"
    and "0 \<le> position" and "nat position < length (tw_slots tw)"
    and "tw_slots tw ! nat position = Ref l"
  shows "removeTask tw key =
     Inr (if \<exists>t \<in> set l. task_key t = key
          then tw\<lparr>tw_slots := (tw_slots tw)[nat position :=
                       Ref (Remove l (length (takeWhile (\<lambda>t. task_key t \<noteq> key) l)))],
                  tw_timer := (tw_timer tw)(key := None)\<rparr>
          else tw)"
proof (cases "\<exists>t \<in> set l. task_key t = key")
  case True
  then have "\<exists>t \<in> set l. \<not> task_key t \<noteq> key" by simp
  from Remove_takeWhile [OF this] True assms show ?thesis
    by (simp add: removeTask_def removeTask_loop_Front)
next
  case False
  have "(tw_slots tw)[nat position := Ref l] = tw_slots tw"
    using assms(4) by (metis list_update_id)
  with False assms show ?thesis
    by (simp add: removeTask_def removeTask_loop_Front)
qed

lemma removeTask_inv:
  assumes inv: "wheel_inv tw" and run: "removeTask tw key = Inr tw'"
  shows "wheel_inv tw'"
proof (cases "tw_timer tw key")
  case None
  with run inv show ?thesis by (simp add: removeTask_def)
next
  case (Some position)
  have ok: "counts_ok (tw_slots tw) (tw_timer tw)" and wf: "well_formed tw"
    using inv by (simp_all add: wheel_inv_def)
  from counts_ok_range [OF ok Some]
  have p: "0 \<le> position" "nat position < length (tw_slots tw)" by simp_all
  let ?l = "slot_tasks tw (nat position)"
  let ?e = "length (takeWhile (\<lambda>t. task_key t \<noteq> key) ?l)"
  have s: "tw_slots tw ! nat position = Ref ?l"
    using wf p by (simp add: well_formed_slot)
  show ?thesis
  proof (cases "\<exists>t \<in> set ?l. task_key t = key")
    case False
    with removeTask_known [OF Some p s] run inv show ?thesis by simp
  next
    case True
    with removeTask_known [OF Some p s] run
    have tw': "tw' = tw\<lparr>tw_slots := (tw_slots tw)[nat position := Ref (Remove ?l ?e)],
                        tw_timer := (tw_timer tw)(key := None)\<rparr>" by simp
    from True have e: "?e < length ?l"
      by (intro length_takeWhile_less) simp
    from nth_length_takeWhile [OF e] have k: "task_key (?l ! ?e) = key" by simp
    have "counts_ok ((tw_slots tw)[nat position := Ref (Remove ?l ?e)])
            ((tw_timer tw)(task_key (?l ! ?e) := None))"
      by (rule counts_ok_Remove [OF ok p(2) s e])
    moreover have "well_formed tw'"
      by (rule well_formed_slots_update [OF wf]) (simp_all add: tw')
    ultimately show ?thesis by (simp add: wheel_inv_def tw' k)
  qed
qed

lemma handle_inv:
  assumes "wheel_inv tw" "key_unique tw ev" "handle tw ev = Some (Inr tw')"
  shows "wheel_inv tw'"
proof (cases ev)
  case TickerC
  with assms show ?thesis by (simp add: tickHandler_inv)
next
  case (AddTaskChannel task)
  with assms show ?thesis by (auto intro: wheel_inv_addTask)
next
  case (UpdateTaskChannel update)
  with assms show ?thesis by (auto intro: updateTask_inv)
next
  case (RemoveTaskChannel key)
  with assms show ?thesis by (auto intro: removeTask_inv)
next
  case StopChannel
  with assms show ?thesis by simp
qed

lemma wheel_inv_empty_wheel: "0 < slotNum \<Longrightarrow> wheel_inv (empty_wheel interval slotNum)"
  by (simp add: wheel_inv_def well_formed_empty_wheel)
    (simp add: counts_ok_def empty_wheel_def)

lemma New_RefD:
  assumes "New interval slotNum = Inr (Ref tw)"
  shows "0 < interval \<and> 0 < slotNum \<and> tw = empty_wheel interval slotNum"
proof (cases "interval \<le> 0 \<or> slotNum \<le> 0")
  case True
  with assms show ?thesis by (simp add: New_def)
next
  case False
  with assms show ?thesis by (simp add: New_valid)
qed

lemma reachable_inv: "reachable tw \<Longrightarrow> wheel_inv tw"
proof (induction rule: reachable.induct)
  case (reachable_New interval slotNum tw)
  then show ?case using New_RefD wheel_inv_empty_wheel by blast
next
  case (reachable_handle tw ev tw')
  then show ?case by (simp add: handle_inv)
qed



lemma returned_state_of: "returned r \<Longrightarrow> r = Some (Inr (state_of r))"
  by (auto simp: returned_def state_of_def split: option.splits sum.splits)



lemma overwrite_fields:
  "task_key (overwrite update task) = task_key task"
  "task_circle (overwrite update task) = task_circle task"
  "task_times (overwrite update task) = task_times task"
  "task_job (overwrite update task) = task_job task"
  by (simp_all add: overwrite_def)

text \<open>
  C10. In a reachable wheel, an Update command for a registered key returns a wheel in
  which the registry, the cursor, the slot count, the interval and the dispatch log are
  the same, every slot but the recorded one is the same, and the recorded slot holds the
  same tasks at the same places, with the same key, circle, runs and callback; the one
  task of that key has the new interval and payload, the others are untouched.
\<close>

theorem update_in_place:
  assumes "reachable tw" and "tw_timer tw (update_key update) = Some position"
  shows "\<exists>tw'. handle tw (UpdateTaskChannel update) = Some (Inr tw') \<and>
     tw_timer tw' = tw_timer tw \<and> tw_currentPos tw' = tw_currentPos tw \<and>
     tw_slotNum tw' = tw_slotNum tw \<and> tw_interval tw' = tw_interval tw \<and>
     tw_dispatched tw' = tw_dispatched tw \<and> length (tw_slots tw') = length (tw_slots tw) \<and>
     0 \<le> position \<and> nat position < length (tw_slots tw) \<and>
     (\<forall>p < length (tw_slots tw). p \<noteq> nat position \<longrightarrow> tw_slots tw' ! p = tw_slots tw ! p) \<and>
     count_key (update_key update) (slot_tasks tw (nat position)) = 1 \<and>
     length (slot_tasks tw' (nat position)) = length (slot_tasks tw (nat position)) \<and>
     (\<forall>e < length (slot_tasks tw (nat position)).
        task_key (slot_tasks tw' (nat position) ! e) = task_key (slot_tasks tw (nat position) ! e) \<and>
        task_circle (slot_tasks tw' (nat position) ! e) =
          task_circle (slot_tasks tw (nat position) ! e) \<and>
        task_times (slot_tasks tw' (nat position) ! e) =
          task_times (slot_tasks tw (nat position) ! e) \<and>
        task_job (slot_tasks tw' (nat position) ! e) = task_job (slot_tasks tw (nat position) ! e) \<and>
        (if task_key (slot_tasks tw (nat position) ! e) = update_key update
         then slot_tasks tw' (nat position) ! e =
                (slot_tasks tw (nat position) ! e)
                  \<lparr>task_interval := update_interval update,
                   task_taskData := update_taskData update\<rparr>
         else slot_tasks tw' (nat position) ! e = slot_tasks tw (nat position) ! e))"
proof -
  have inv: "wheel_inv tw" using assms(1) by (rule reachable_inv)
  have ok: "counts_ok (tw_slots tw) (tw_timer tw)" and wf: "well_formed tw"
    using inv by (simp_all add: wheel_inv_def)
  from counts_ok_range [OF ok assms(2)]
  have p: "0 \<le> position" "nat position < length (tw_slots tw)" by simp_all
  let ?l = "slot_tasks tw (nat position)"
  let ?tw' = "tw\<lparr>tw_slots := (tw_slots tw)[nat position := Ref (map (overwrite update) ?l)]\<rparr>"
  have s: "tw_slots tw ! nat position = Ref ?l"
    using wf p by (simp add: well_formed_slot)
  have h: "handle tw (UpdateTaskChannel update) = Some (Inr ?tw')"
    using updateTask_known [OF assms(2) p s] by simp
  have c: "count_key (update_key update) ?l = 1"
    using counts_ok_count [OF ok p(2), of "update_key update"] assms(2) p(1)
    by (simp add: slot_tasks_def)
  have st: "slot_tasks ?tw' (nat position) = map (overwrite update) ?l"
    using p by (simp add: slot_tasks_def)
  have el: "task_key (slot_tasks ?tw' (nat position) ! e) = task_key (?l ! e) \<and>
        task_circle (slot_tasks ?tw' (nat position) ! e) = task_circle (?l ! e) \<and>
        task_times (slot_tasks ?tw' (nat position) ! e) = task_times (?l ! e) \<and>
        task_job (slot_tasks ?tw' (nat position) ! e) = task_job (?l ! e) \<and>
        (if task_key (?l ! e) = update_key update
         then slot_tasks ?tw' (nat position) ! e =
                (?l ! e)\<lparr>task_interval := update_interval update,
                         task_taskData := update_taskData update\<rparr>
         else slot_tasks ?tw' (nat position) ! e = ?l ! e)" if "e < length ?l" for e
    using that unfolding st by (simp add: overwrite_fields) (simp add: overwrite_def)
  have others: "\<forall>q < length (tw_slots tw). q \<noteq> nat position \<longrightarrow>
      tw_slots ?tw' ! q = tw_slots tw ! q" by simp
  have len: "length (slot_tasks ?tw' (nat position)) = length ?l" unfolding st by simp
  show ?thesis
    apply (rule exI [where x = ?tw'])
    apply (intro conjI)
                apply (rule h)
               apply simp
              apply simp
             apply simp
            apply simp
           apply simp
          apply simp
         apply (rule p(1))
        apply (rule p(2))
       apply (rule others)
      apply (rule c)
     apply (rule len)
    using el apply blast
    done
qed

section \<open>The account of one key\<close>

lemma key_tasks_simps [simp]:
  "key_tasks K [] = []"
  "key_tasks K (t # xs) = (if task_key t = K then t # key_tasks K xs else key_tasks K xs)"
  "key_tasks K (xs @ ys) = key_tasks K xs @ key_tasks K ys"
  by (simp_all add: key_tasks_def)




















section \<open>Every task of the slot is met\<close>








section \<open>A task with three runs; a task that is cancelled\<close>











section \<open>Runs of a sample wheel\<close>


lemma reachable_sample_wheel: "reachable (sample_wheel 1000000000 3)"
  by (rule reachable_New [of 1000000000 3]) (simp add: New_valid sample_wheel_def)




theorem update_in_place_witness:
  "reachable (armed_wheel (sample_task ''A'' 1000000000 3)) \<and>
   tw_timer (armed_wheel (sample_task ''A'' 1000000000 3)) ''A'' = Some 1 \<and>
   slot_tasks (armed_wheel (sample_task ''A'' 1000000000 3)) 1 ! 0 = sample_task ''A'' 1000000000 3 \<and>
   (\<exists>tw'. handle (armed_wheel (sample_task ''A'' 1000000000 3))
             (UpdateTaskChannel \<lparr>update_key = ''A'', update_interval = 7000000000,
                                 update_taskData = ''new''\<rparr>) = Some (Inr tw') \<and>
          tw_timer tw' = tw_timer (armed_wheel (sample_task ''A'' 1000000000 3)) \<and>
          tw_currentPos tw' = tw_currentPos (armed_wheel (sample_task ''A'' 1000000000 3)) \<and>
          slot_tasks tw' 1 ! 0 =
            (sample_task ''A'' 1000000000 3)\<lparr>task_interval := 7000000000,
                                              task_taskData := ''new''\<rparr>)"
proof -
  let ?W = "sample_wheel 1000000000 3"
  let ?A = "sample_task ''A'' 1000000000 3"
  let ?S = "armed_wheel ?A"
  let ?U = "\<lparr>update_key = ''A'', update_interval = 7000000000, update_taskData = ''new''\<rparr>"
  have "returned (handle ?W (AddTaskChannel ?A))" by code_simp
  then have a: "handle ?W (AddTaskChannel ?A) = Some (Inr ?S)"
    unfolding armed_wheel_def by (rule returned_state_of)
  have "key_unique ?W (AddTaskChannel ?A)" by code_simp
  from reachable_handle [OF reachable_sample_wheel this a] have r: "reachable ?S" .
  have t: "tw_timer ?S (update_key ?U) = Some 1" by code_simp
  have len: "0 < length (slot_tasks ?S (nat 1))" by code_simp
  have el: "slot_tasks ?S (nat 1) ! 0 = ?A" by code_simp
  have kA: "task_key ?A = update_key ?U" by (simp add: sample_task_def)
  from update_in_place [OF r t] obtain tw'
    where h: "handle ?S (UpdateTaskChannel ?U) = Some (Inr tw')"
      and tm: "tw_timer tw' = tw_timer ?S" and cp: "tw_currentPos tw' = tw_currentPos ?S"
      and all: "\<forall>e < length (slot_tasks ?S (nat 1)).
        task_key (slot_tasks tw' (nat 1) ! e) = task_key (slot_tasks ?S (nat 1) ! e) \<and>
        task_circle (slot_tasks tw' (nat 1) ! e) = task_circle (slot_tasks ?S (nat 1) ! e) \<and>
        task_times (slot_tasks tw' (nat 1) ! e) = task_times (slot_tasks ?S (nat 1) ! e) \<and>
        task_job (slot_tasks tw' (nat 1) ! e) = task_job (slot_tasks ?S (nat 1) ! e) \<and>
        (if task_key (slot_tasks ?S (nat 1) ! e) = update_key ?U
         then slot_tasks tw' (nat 1) ! e =
                (slot_tasks ?S (nat 1) ! e)
                  \<lparr>task_interval := update_interval ?U, task_taskData := update_taskData ?U\<rparr>
         else slot_tasks tw' (nat 1) ! e = slot_tasks ?S (nat 1) ! e)"
    by blast
  from all len el kA
  have "slot_tasks tw' (nat 1) ! 0 = ?A\<lparr>task_interval := 7000000000, task_taskData := ''new''\<rparr>"
    by (auto split: if_splits)
  with r t el h tm cp show ?thesis by auto
qed

section \<open>The tick as a whole\<close>

lemma one_pass_holds:
  assumes wf: "well_formed tw" and l: "l < length (tw_slots tw)"
    and item: "item < length (slot_tasks tw l)"
  shows "one_pass tw l item"
proof -
  let ?xs = "slot_tasks tw l"
  let ?t = "?xs ! item"
  let ?d = "taken_out (dispatched tw ?t) l item"
  have s: "tw_slots tw ! l = Ref ?xs" using wf l by (rule well_formed_slot)
  have d: "?d = tw\<lparr>tw_dispatched := tw_dispatched tw @ [?t],
                    tw_slots := (tw_slots tw)[l := Ref (Remove ?xs item)],
                    tw_timer := (tw_timer tw)(task_key ?t := None)\<rparr>"
    by (simp add: taken_out_def dispatched_def slot_tasks_def)
  have "scan_step tw l item =
          Inr (put_at ?d (rearmed ?t) (whole_second_placement tw (task_interval ?t)),
               moved item (Next ?xs item))"
    if a: "task_times ?t \<noteq> 0" "\<not> 0 < task_circle ?t"
      "0 < task_times ?t \<or> task_times ?t = - 1"
      and i: "Second \<le> tw_interval tw" and p: "0 \<le> task_interval ?t"
  proof -
    obtain pos circle where w: "whole_second_placement tw (task_interval ?t) = (pos, circle)"
      by (cases "whole_second_placement tw (task_interval ?t)")
    have wfd: "well_formed ?d"
      by (rule well_formed_slots_update [OF wf, where p = l and ys = "Remove ?xs item"])
        (simp_all add: d)
    have id: "Second \<le> tw_interval ?d" and pd: "0 \<le> task_interval (rearmed ?t)"
      using i p by (simp_all add: d rearmed_def)
    have wd: "whole_second_placement ?d (task_interval (rearmed ?t)) = (pos, circle)"
      using w by (simp add: d whole_second_placement_def rearmed_def)
    have "addTask ?d (rearmed ?t) = Inr (put_at ?d (rearmed ?t) (pos, circle))"
      using addTask_whole [OF wfd id pd wd] by (simp add: put_at_def)
    with scan_step_fire_rearm [OF s a] w show ?thesis by (simp add: d)
  qed
  with scan_step_evict [OF s] scan_step_wait [OF s] scan_step_fire_once [OF s]
  show ?thesis
    unfolding one_pass_def Let_def
    by (simp add: taken_out_def dispatched_def slot_tasks_def)
qed













section \<open>A tick that does not return\<close>

text \<open>
  Two tasks that run for ever with a delay below the wheel's interval are each put back,
  due at once, behind the other in the slot under the cursor: the walk of that slot has
  no end.
\<close>

lemma spinning_step:
  assumes "spinning tw l"
  shows "\<exists>tw'. scan_step tw l 0 = Inr (tw', Ref 0) \<and> spinning tw' l"
proof -
  from assms obtain x y where wf: "well_formed tw" and l: "l = nat (tw_currentPos tw)"
    and i: "Second \<le> tw_interval tw" and xs: "slot_tasks tw l = [x, y]"
    and hx: "hot tw x" and hy: "hot tw y"
    by (auto simp: spinning_def)
  have ll: "l < length (tw_slots tw)" and c0: "0 \<le> tw_currentPos tw"
    using wf l by (simp_all add: well_formed_def)
  let ?d = "taken_out (dispatched tw x) l 0"
  let ?tw' = "put_at ?d (rearmed x) (tw_currentPos tw, 0)"
  have "one_pass tw l 0" by (rule one_pass_holds [OF wf ll]) (simp add: xs)
  with hx i xs have s: "scan_step tw l 0 = Inr (?tw', Ref 0)"
    by (simp add: one_pass_def Let_def hot_def moved_def Next_def)
  have sd: "slot_tasks ?d l = [y]"
    using ll xs by (simp add: taken_out_def dispatched_def slot_tasks_def Remove_def)
  have rx: "rearmed x = x" using hx by (simp add: rearmed_def hot_def)
  have st: "slot_tasks ?tw' l = [y, x\<lparr>task_circle := 0\<rparr>]"
    using ll sd l c0 by (simp add: put_at_def rx slot_tasks_def taken_out_def dispatched_def)
  have wfd: "well_formed ?d"
    by (rule well_formed_slots_update [OF wf, where p = l
          and ys = "Remove (slot_tasks (dispatched tw x) l) 0"])
      (simp_all add: taken_out_def dispatched_def)
  have wf': "well_formed ?tw'"
    by (rule well_formed_slots_update [OF wfd, where p = "nat (tw_currentPos tw)"
          and ys = "slot_tasks ?d (nat (tw_currentPos tw)) @ [x\<lparr>task_circle := 0\<rparr>]"])
      (simp_all add: put_at_def rx)
  have same: "tw_currentPos ?tw' = tw_currentPos tw" "tw_slotNum ?tw' = tw_slotNum tw"
    "tw_interval ?tw' = tw_interval tw"
    by (simp_all add: put_at_def taken_out_def dispatched_def)
  have w: "whole_second_placement ?tw' d = whole_second_placement tw d" for d
    by (simp add: whole_second_placement_def same)
  have "hot ?tw' y" "hot ?tw' (x\<lparr>task_circle := 0\<rparr>)"
    using hx hy by (simp_all add: hot_def w same)
  with wf' st l i same have "spinning ?tw' l" unfolding spinning_def by auto
  with s show ?thesis by blast
qed

lemma spinning_never_returns:
  fixes tw :: "('k, 'j, 'd) TimeWheel"
  assumes "spinning tw l"
  shows "scan_loop tw l (Ref 0) = None"
proof (rule ccontr)
  assume "scan_loop tw l (Ref 0) \<noteq> None"
  then obtain y where run: "scan_loop tw l (Ref 0) = Some y" by blast
  let ?P = "\<lambda>(tw :: ('k, 'j, 'd) TimeWheel) l item (y :: panic + ('k, 'j, 'd) TimeWheel).
              \<not> (spinning tw l \<and> item = Ref (0::nat))"
  have "?P tw l (Ref 0) y"
  proof (rule scan_loop.raw_induct [where P = ?P, OF _ run])
    fix f and tw :: "('k, 'j, 'd) TimeWheel" and l item and y :: "panic + ('k, 'j, 'd) TimeWheel"
    assume IH: "\<And>tw l item y. f tw l item = Some y \<Longrightarrow> ?P tw l item y"
      and body: "(case item of nil \<Rightarrow> Some (Inr tw)
                  | Ref e \<Rightarrow>
                      (case scan_step tw l e of Inl err \<Rightarrow> Some (Inl err)
                       | Inr (tw', item') \<Rightarrow> f tw' l item')) = Some y"
    show "?P tw l item y"
    proof
      assume sp: "spinning tw l \<and> item = Ref 0"
      with spinning_step [of tw l] obtain tw'
        where s: "scan_step tw l 0 = Inr (tw', Ref 0)" and sp': "spinning tw' l" by blast
      from body sp s have "f tw' l (Ref 0) = Some y" by simp
      from IH [OF this] sp' show False by simp
    qed
  qed
  with assms show False by simp
qed

lemma tick_never_returns:
  "tickHandler (state_of (start (sample_wheel 2000000000 3)
      [AddTaskChannel (sample_task ''A'' 1000000000 (- 1)),
       AddTaskChannel (sample_task ''B'' 1000000000 (- 1))])) = None"
proof -
  let ?S = "state_of (start (sample_wheel 2000000000 3)
      [AddTaskChannel (sample_task ''A'' 1000000000 (- 1)),
       AddTaskChannel (sample_task ''B'' 1000000000 (- 1))])"
  have wf: "well_formed ?S" by code_simp
  have c: "tw_currentPos ?S = 0" by code_simp
  have i: "Second \<le> tw_interval ?S" by code_simp
  have xs: "slot_tasks ?S 0 = [sample_task ''A'' 1000000000 (- 1), sample_task ''B'' 1000000000 (- 1)]"
    by code_simp
  have h: "hot ?S (sample_task ''A'' 1000000000 (- 1))" "hot ?S (sample_task ''B'' 1000000000 (- 1))"
    by code_simp+
  have "spinning ?S 0" unfolding spinning_def using wf c i xs h by auto
  then have "scan_loop ?S 0 (Ref 0) = None" by (rule spinning_never_returns)
  moreover have "tw_slots ?S ! 0 = Ref (slot_tasks ?S 0)"
    using wf by (intro well_formed_slot) (simp_all add: well_formed_def)
  ultimately show ?thesis using wf c xs
    by (simp add: tickHandler_def scanAddRunTask_def Front_def well_formed_def)
qed

end
